theory Spec2Isabelle
  imports Complex_Main "HOL-Library.Word" "HOL-Library.Signed_Division" "HOL-Library.Log_Nat"
begin

section \<open>HashTable: the fixed-capacity open-addressing table (utils/HashTable.h)\<close>

text \<open>
  \<^verbatim>\<open>HashTable<Key, Value, Capacity>\<close> holds a \<^verbatim>\<open>std::array<Entry, Capacity>\<close>.
  The table is modelled as the list of its entries; \<^verbatim>\<open>Capacity\<close> is the length of
  that list. A key is modelled by the number \<^verbatim>\<open>static_cast<size_t>(key)\<close> that the
  hash function sees, so \<^verbatim>\<open>Key{}\<close> is \<open>0\<close>; a value is of any type with a zero,
  \<^verbatim>\<open>Value{}\<close> being \<open>0\<close> (the null pointer for the two tables of the repository).
  \<^verbatim>\<open>Capacity\<close> is positive wherever the code runs: \<^verbatim>\<open>% Capacity\<close> is undefined
  otherwise. The field \<^verbatim>\<open>value\<close> is \<open>val\<close> here, and \<^verbatim>\<open>insert\<close> and \<^verbatim>\<open>find\<close>
  are \<open>insert_ht\<close> and \<open>find_ht\<close>: the plain names are taken.
\<close>

record 'v Entry =
  key :: nat
  val :: 'v
  occupied :: bool
  deleted :: bool

type_synonym 'v HashTable = "'v Entry list"

definition empty_entry :: "('v::zero) Entry" where
  "empty_entry = \<lparr>key = 0, val = 0, occupied = False, deleted = False\<rparr>"

definition empty_table :: "nat \<Rightarrow> ('v::zero) HashTable" where
  "empty_table Capacity = replicate Capacity empty_entry"

definition hashFunction :: "'v HashTable \<Rightarrow> nat \<Rightarrow> nat" where
  "hashFunction table k = k mod length table"

text \<open>The body of the \<^verbatim>\<open>for\<close> loop of \<^verbatim>\<open>insert\<close>, from iteration \<open>i\<close> on.\<close>

function insert_loop :: "nat \<Rightarrow> 'v \<Rightarrow> 'v HashTable \<Rightarrow> nat \<Rightarrow> nat \<Rightarrow> bool \<times> 'v HashTable" where
  "insert_loop k v table index i =
     (if i < length table then
        (let probe = (index + i) mod length table in
         if \<not> occupied (table ! probe) \<or> deleted (table ! probe) \<or> key (table ! probe) = k
         then (True, table[probe := \<lparr>key = k, val = v, occupied = True, deleted = False\<rparr>])
         else insert_loop k v table index (i + 1))
      else (False, table))"
  by pat_completeness auto
termination
  by (relation "measure (\<lambda>(k, v, table, index, i). length table - i)") auto

definition insert_ht :: "nat \<Rightarrow> 'v \<Rightarrow> 'v HashTable \<Rightarrow> bool \<times> 'v HashTable" where
  "insert_ht k v table = insert_loop k v table (hashFunction table k) 0"

text \<open>
  \<^verbatim>\<open>find\<close> returns a pointer to the stored value or \<^verbatim>\<open>nullptr\<close>; the model
  returns the value pointed to, or \<open>None\<close>.
\<close>

function find_loop :: "nat \<Rightarrow> 'v HashTable \<Rightarrow> nat \<Rightarrow> nat \<Rightarrow> 'v option" where
  "find_loop k table index i =
     (if i < length table then
        (let probe = (index + i) mod length table in
         if occupied (table ! probe) \<and> \<not> deleted (table ! probe) \<and> key (table ! probe) = k
         then Some (val (table ! probe))
         else find_loop k table index (i + 1))
      else None)"
  by pat_completeness auto
termination
  by (relation "measure (\<lambda>(k, table, index, i). length table - i)") auto

definition find_ht :: "nat \<Rightarrow> 'v HashTable \<Rightarrow> 'v option" where
  "find_ht k table = find_loop k table (hashFunction table k) 0"

function remove_loop :: "nat \<Rightarrow> ('v::zero) HashTable \<Rightarrow> nat \<Rightarrow> nat \<Rightarrow> bool \<times> 'v HashTable" where
  "remove_loop k table index i =
     (if i < length table then
        (let probe = (index + i) mod length table in
         if occupied (table ! probe) \<and> \<not> deleted (table ! probe) \<and> key (table ! probe) = k
         then (True, table[probe := (table ! probe)\<lparr>deleted := True, val := 0, key := 0\<rparr>])
         else remove_loop k table index (i + 1))
      else (False, table))"
  by pat_completeness auto
termination
  by (relation "measure (\<lambda>(k, table, index, i). length table - i)") auto

definition remove :: "nat \<Rightarrow> ('v::zero) HashTable \<Rightarrow> bool \<times> 'v HashTable" where
  "remove k table = remove_loop k table (hashFunction table k) 0"

definition getSize :: "'v HashTable \<Rightarrow> nat" where
  "getSize table = length (filter (\<lambda>entry. occupied entry \<and> \<not> deleted entry) table)"

text \<open>A call of the table's interface, and a run of calls (the returned flags are dropped).\<close>

datatype 'v call = Insert nat 'v | Remove nat

fun step :: "('v::zero) HashTable \<Rightarrow> 'v call \<Rightarrow> 'v HashTable" where
  "step table (Insert k v) = snd (insert_ht k v table)"
| "step table (Remove k) = snd (remove k table)"

definition run :: "('v::zero) call list \<Rightarrow> 'v HashTable \<Rightarrow> 'v HashTable" where
  "run calls table = foldl step table calls"

text \<open>
  The \<^verbatim>\<open>find\<close> of the specification: the same probe sequence, but the search
  stops and reports absent at the first slot that was never occupied.
\<close>

function find_spec_loop :: "nat \<Rightarrow> 'v HashTable \<Rightarrow> nat \<Rightarrow> nat \<Rightarrow> 'v option" where
  "find_spec_loop k table index i =
     (if i < length table then
        (let probe = (index + i) mod length table in
         if \<not> occupied (table ! probe) then None
         else if \<not> deleted (table ! probe) \<and> key (table ! probe) = k
         then Some (val (table ! probe))
         else find_spec_loop k table index (i + 1))
      else None)"
  by pat_completeness auto
termination
  by (relation "measure (\<lambda>(k, table, index, i). length table - i)") auto

definition find_spec :: "nat \<Rightarrow> 'v HashTable \<Rightarrow> 'v option" where
  "find_spec k table = find_spec_loop k table (hashFunction table k) 0"

text \<open>
  The two tests of the loops: slot \<open>p\<close> holds key \<open>k\<close> (the test of \<^verbatim>\<open>find\<close> and
  \<^verbatim>\<open>remove\<close>), and slot \<open>p\<close> may take key \<open>k\<close> (the test of \<^verbatim>\<open>insert\<close>).
\<close>

definition hit :: "nat \<Rightarrow> 'v HashTable \<Rightarrow> nat \<Rightarrow> bool" where
  "hit k table p = (occupied (table ! p) \<and> \<not> deleted (table ! p) \<and> key (table ! p) = k)"

definition usable :: "nat \<Rightarrow> 'v HashTable \<Rightarrow> nat \<Rightarrow> bool" where
  "usable k table p = (\<not> occupied (table ! p) \<or> deleted (table ! p) \<or> key (table ! p) = k)"

text \<open>
  The invariant behind the early stop of the specification's \<^verbatim>\<open>find\<close>: every slot
  that the probe sequence of a stored key passes before reaching the key has been
  occupied at some time.
\<close>

definition chain_inv :: "'v HashTable \<Rightarrow> bool" where
  "chain_inv table =
     (\<forall>k i. i < length table \<and> hit k table ((k mod length table + i) mod length table)
        \<longrightarrow> (\<forall>j<i. occupied (table ! ((k mod length table + j) mod length table))))"

declare insert_loop.simps [simp del]
declare find_loop.simps [simp del]
declare remove_loop.simps [simp del]
declare find_spec_loop.simps [simp del]

text \<open>
  What a table looks like after the pairs \<open>kvs\<close> have been inserted into an empty
  table: no tombstone, every occupied slot holds one of the pairs, every pair is in
  some slot, and as many slots are occupied as there are pairs.
\<close>

definition filled :: "'v HashTable \<Rightarrow> (nat \<times> 'v) list \<Rightarrow> bool" where
  "filled table kvs =
     ((\<forall>p<length table. \<not> deleted (table ! p))
      \<and> (\<forall>p<length table. occupied (table ! p) \<longrightarrow> (key (table ! p), val (table ! p)) \<in> set kvs)
      \<and> (\<forall>(k, v)\<in>set kvs. \<exists>p<length table. hit k table p \<and> val (table ! p) = v)
      \<and> card {p. p < length table \<and> occupied (table ! p)} = length kvs)"

definition inserts :: "(nat \<times> 'v) list \<Rightarrow> 'v call list" where
  "inserts kvs = map (\<lambda>(k, v). Insert k v) kvs"

text \<open>The keys of the occupied, non-tombstoned slots, in table order.\<close>

definition live_keys :: "'v HashTable \<Rightarrow> nat list" where
  "live_keys table = map key (filter (\<lambda>entry. occupied entry \<and> \<not> deleted entry) table)"

definition MAX_WIDGETS :: nat where
  "MAX_WIDGETS = 10"

text \<open>
  Example tables: two keys with the same hash value in a table of \<^verbatim>\<open>MAX_WIDGETS\<close>
  slots, where the first is removed and the second inserted again; and a table of three
  slots filled with three keys of the same hash value.
\<close>

definition collision_table :: "int HashTable" where
  "collision_table = run [Insert 1 100, Insert 11 200, Remove 1, Insert 11 300] (empty_table MAX_WIDGETS)"

definition full_table :: "int HashTable" where
  "full_table = run (inserts [(0, 10), (3, 20), (6, 30)]) (empty_table 3)"

section \<open>Machine integers, faults and widget attributes (utils/WidgetAttributes.h)\<close>

text \<open>
  \<^verbatim>\<open>int8_t\<close> and \<^verbatim>\<open>int16_t\<close> are words read by \<open>sint\<close>. Arithmetic on them is
  done in \<^verbatim>\<open>int\<close> after the integer promotions (\<^verbatim>\<open>int\<close> has 32 bits on the
  targets of the rendering library, so no such intermediate result overflows), and
  the assignment to an \<^verbatim>\<open>int16_t\<close> keeps the low 16 bits: \<open>to_int16_t\<close>.
  The four structs \<^verbatim>\<open>Utils::Widget::Boundary\<close>, \<^verbatim>\<open>PrivateBoundary\<close>,
  \<^verbatim>\<open>PrivateLineSegment\<close> and \<^verbatim>\<open>GraticulesLineSegment\<close> have the same four
  \<^verbatim>\<open>int16_t\<close> fields and are one record here.

  What C++ leaves undefined (a division by zero, an access outside an array, a null or
  wrongly typed pointer, the conversion of a \<^verbatim>\<open>float\<close> to an integer type that cannot
  hold its integral part) is a \<open>fault\<close> of the model.
\<close>

type_synonym int8_t = "8 word"
type_synonym int16_t = "16 word"
type_synonym Color = "16 word"

datatype fault = DivisionByZero | OutOfBounds | NullPointer | BadCast | Unrepresentable

definition MAX_GRATICULES :: nat where
  "MAX_GRATICULES = 20"

record Boundary =
  x1 :: int16_t
  y1 :: int16_t
  x2 :: int16_t
  y2 :: int16_t

type_synonym LineSegment = Boundary

text \<open>
  The widget type is the key of the registry and of the pool;
  \<open>key_of\<close> is \<^verbatim>\<open>static_cast<size_t>\<close> on it.
\<close>

datatype Type = DEFAULT | LABEL | GRAPH

fun key_of :: "Type \<Rightarrow> nat" where
  "key_of DEFAULT = 0"
| "key_of LABEL = 1"
| "key_of GRAPH = 2"

datatype SizingMode = ABSOLUTE | AREA_PERCENT | DIMENSION_PERCENT

record Geometry =
  mode :: SizingMode
  width :: int16_t
  height :: int16_t
  percentSize :: int16_t
  boundary :: Boundary

record Graph =
  originColor :: Color
  originThickness :: int8_t
  gridlineColor :: Color
  gridlineThickness :: int8_t
  xDivisionQty :: int8_t
  yDivisionQty :: int8_t
  xOriginIndex :: int8_t
  yOriginIndex :: int8_t

text \<open>
  Of \<^verbatim>\<open>Attributes\<close>, the fields that the geometry and the build stage read or
  write; the style groups go to the rendering library only. The union \<^verbatim>\<open>data\<close> has
  the one member \<^verbatim>\<open>graph\<close>.
\<close>

record Attributes =
  isCustom :: bool
  geometry :: Geometry
  data :: Graph

section \<open>Graticules: the grid geometry (ui/widgets/Graticules.h, Graticules.cpp)\<close>

datatype AxisType = TIME | VOLTAGE

record Graticules =
  privateBoundary :: Boundary
  originColor :: Color
  originThickness :: int8_t
  gridlineColor :: Color
  gridlineThickness :: int8_t
  timeDivisions :: int8_t
  voltageDivisions :: int8_t
  xOriginIndex :: int8_t
  yOriginIndex :: int8_t
  timeStepSize :: int16_t
  voltageStepSize :: int16_t
  Time :: "LineSegment list"
  Voltage :: "LineSegment list"

definition zero_segment :: LineSegment where
  "zero_segment = \<lparr>x1 = 0, y1 = 0, x2 = 0, y2 = 0\<rparr>"

text \<open>A default-constructed instance (the instance of the repository has static storage).\<close>

definition new_Graticules :: Graticules where
  "new_Graticules =
     \<lparr>privateBoundary = zero_segment,
      originColor = 0, originThickness = 0, gridlineColor = 0, gridlineThickness = 0,
      timeDivisions = 0, voltageDivisions = 0, xOriginIndex = 0, yOriginIndex = 0,
      timeStepSize = 0, voltageStepSize = 0,
      Time = replicate MAX_GRATICULES zero_segment,
      Voltage = replicate MAX_GRATICULES zero_segment\<rparr>"

text \<open>The conversion of an \<^verbatim>\<open>int\<close> to \<^verbatim>\<open>int16_t\<close>: the low 16 bits.\<close>

definition to_int16_t :: "int \<Rightarrow> int16_t" where
  "to_int16_t k = word_of_int k"

definition setStepSize :: "Graticules \<Rightarrow> fault + Graticules" where
  "setStepSize g =
     (let timeLength = to_int16_t ((sint (x2 (privateBoundary g)) - sint (x1 (privateBoundary g))) + 1);
          voltageLength = to_int16_t ((sint (y2 (privateBoundary g)) - sint (y1 (privateBoundary g))) + 1)
      in if sint (timeDivisions g) = 0 then Inl DivisionByZero
         else if sint (voltageDivisions g) = 0 then Inl DivisionByZero
         else Inr (g\<lparr>timeStepSize := to_int16_t (sint timeLength sdiv sint (timeDivisions g)),
                     voltageStepSize := to_int16_t (sint voltageLength sdiv sint (voltageDivisions g))\<rparr>))"

text \<open>
  The two loops of \<^verbatim>\<open>setLineSegments\<close>. The counter \<^verbatim>\<open>int8_t i\<close> is below a
  division count, hence below 127, and never wraps: it is an \<open>int\<close> here.
\<close>

function time_lines :: "Graticules \<Rightarrow> int \<Rightarrow> fault + Graticules" where
  "time_lines g i =
     (if i < sint (timeDivisions g) then
        (let x = to_int16_t (sint (x1 (privateBoundary g)) + i * sint (timeStepSize g))
         in if 0 \<le> i \<and> nat i < MAX_GRATICULES
            then time_lines
                   (g\<lparr>Time := (Time g)[nat i := \<lparr>x1 = x, y1 = y1 (privateBoundary g),
                                                 x2 = x, y2 = y2 (privateBoundary g)\<rparr>]\<rparr>)
                   (i + 1)
            else Inl OutOfBounds)
      else Inr g)"
  by pat_completeness auto
termination
  by (relation "measure (\<lambda>(g, i). nat (sint (timeDivisions g) - i))") auto

function voltage_lines :: "Graticules \<Rightarrow> int \<Rightarrow> fault + Graticules" where
  "voltage_lines g i =
     (if i < sint (voltageDivisions g) then
        (let y = to_int16_t (sint (y1 (privateBoundary g)) + i * sint (voltageStepSize g))
         in if 0 \<le> i \<and> nat i < MAX_GRATICULES
            then voltage_lines
                   (g\<lparr>Voltage := (Voltage g)[nat i := \<lparr>x1 = x1 (privateBoundary g), y1 = y,
                                                       x2 = x2 (privateBoundary g), y2 = y\<rparr>]\<rparr>)
                   (i + 1)
            else Inl OutOfBounds)
      else Inr g)"
  by pat_completeness auto
termination
  by (relation "measure (\<lambda>(g, i). nat (sint (voltageDivisions g) - i))") auto

definition setLineSegments :: "Graticules \<Rightarrow> fault + Graticules" where
  "setLineSegments g =
     (case time_lines g 0 of
        Inl f \<Rightarrow> Inl f
      | Inr g' \<Rightarrow> voltage_lines g' 0)"

text \<open>
  \<^verbatim>\<open>configure\<close> receives the boundary through a pointer; the build stage passes the
  address of a field, never \<^verbatim>\<open>nullptr\<close>, and the model takes the boundary itself.
\<close>

definition configure ::
  "Graticules \<Rightarrow> Boundary \<Rightarrow> Color \<Rightarrow> int8_t \<Rightarrow> Color \<Rightarrow> int8_t
     \<Rightarrow> int8_t \<Rightarrow> int8_t \<Rightarrow> int8_t \<Rightarrow> int8_t \<Rightarrow> fault + Graticules" where
  "configure g boundary' originColor' originThickness' gridlineColor' gridlineThickness'
       timeDivisions' voltageDivisions' xOriginIndex' yOriginIndex' =
     (let g1 = g\<lparr>privateBoundary := \<lparr>x1 = x1 boundary', y1 = y1 boundary',
                                       x2 = x2 boundary', y2 = y2 boundary'\<rparr>,
                  originColor := originColor',
                  originThickness := originThickness',
                  gridlineColor := gridlineColor',
                  gridlineThickness := gridlineThickness',
                  timeDivisions := timeDivisions',
                  voltageDivisions := voltageDivisions',
                  xOriginIndex := xOriginIndex',
                  yOriginIndex := yOriginIndex'\<rparr>
      in case setStepSize g1 of
           Inl f \<Rightarrow> Inl f
         | Inr g2 \<Rightarrow> setLineSegments g2)"

text \<open>
  \<^verbatim>\<open>isValidIndex\<close> stores the division count in a \<^verbatim>\<open>uint8_t\<close>: the count is
  read by \<open>uint\<close>, the index by \<open>sint\<close>.
\<close>

definition isValidIndex :: "Graticules \<Rightarrow> int8_t \<Rightarrow> AxisType \<Rightarrow> bool" where
  "isValidIndex g segmentIndex type =
     (let graticuleCount = (if type = TIME then timeDivisions g else voltageDivisions g)
      in sint segmentIndex \<ge> 0 \<and> sint segmentIndex < uint graticuleCount)"

definition getLineSegment :: "Graticules \<Rightarrow> int8_t \<Rightarrow> AxisType \<Rightarrow> fault + LineSegment" where
  "getLineSegment g segmentIndex type =
     (if \<not> isValidIndex g segmentIndex type then Inr zero_segment
      else case type of
             TIME \<Rightarrow>
               (if nat (sint segmentIndex) < MAX_GRATICULES
                then Inr (Time g ! nat (sint segmentIndex)) else Inl OutOfBounds)
           | VOLTAGE \<Rightarrow>
               (if nat (sint segmentIndex) < MAX_GRATICULES
                then Inr (Voltage g ! nat (sint segmentIndex)) else Inl OutOfBounds))"

definition getStepSize :: "Graticules \<Rightarrow> AxisType \<Rightarrow> int16_t" where
  "getStepSize g type = (case type of TIME \<Rightarrow> timeStepSize g | VOLTAGE \<Rightarrow> voltageStepSize g)"

definition getDivisions :: "Graticules \<Rightarrow> AxisType \<Rightarrow> int8_t" where
  "getDivisions g type = (case type of TIME \<Rightarrow> timeDivisions g | VOLTAGE \<Rightarrow> voltageDivisions g)"

text \<open>The arrays of an instance have \<^verbatim>\<open>MAX_GRATICULES\<close> elements.\<close>

definition wf_Graticules :: "Graticules \<Rightarrow> bool" where
  "wf_Graticules g = (length (Time g) = MAX_GRATICULES \<and> length (Voltage g) = MAX_GRATICULES)"

declare time_lines.simps [simp del]
declare voltage_lines.simps [simp del]

text \<open>
  Example inputs: the 480 by 384 boundary of the specification, a boundary whose
  inclusive width is 32768, and an instance configured once with 10 and 8 divisions and
  then again with a time division count of \<open>-1\<close>.
\<close>

definition screen_boundary :: Boundary where
  "screen_boundary = \<lparr>x1 = 0, y1 = 0, x2 = 479, y2 = 383\<rparr>"

definition wide_boundary :: Boundary where
  "wide_boundary = \<lparr>x1 = 0, y1 = 0, x2 = 32767, y2 = 0\<rparr>"

definition configured_once :: Graticules where
  "configured_once = projr (configure new_Graticules screen_boundary 0 2 0 1 10 8 5 4)"

definition configured_twice :: Graticules where
  "configured_twice = projr (configure configured_once screen_boundary 0 2 0 1 (- 1) 8 5 4)"

section \<open>Scaling and boundaries (utils/Math.h)\<close>

subsection \<open>Single-precision arithmetic\<close>









subsection \<open>The functions of Math.h\<close>




section \<open>Registry, pool and the two state machines\<close>

text \<open>
  The registry and the pool are singletons, each with one table from the widget type to
  a pointer. A pointer is an address, 0 being \<^verbatim>\<open>nullptr\<close>; the objects pointed to
  live in two stores. A widget is a plain \<^verbatim>\<open>Widget\<close> or a \<^verbatim>\<open>Graticules\<close>; the
  fields of the base class belong to the rendering library and are left out.
  The state machines hold a pointer to each singleton: \<open>nullptr\<close> or \<open>singleton\<close>.
\<close>

datatype WidgetObject = PlainWidget | GraticulesWidget Graticules

record World =
  registry :: "nat HashTable"
  pool :: "nat HashTable"
  attributes :: "nat \<Rightarrow> Attributes option"
  widgets :: "nat \<Rightarrow> WidgetObject option"

datatype service = nullptr | singleton

text \<open>
  The iteration over a table yields the occupied slots without tombstone, in table
  order (\<^verbatim>\<open>Iterator::skipInvalid\<close>).
\<close>

definition entries :: "'v HashTable \<Rightarrow> 'v Entry list" where
  "entries table = filter (\<lambda>entry. occupied entry \<and> \<not> deleted entry) table"

text \<open>
  \<^verbatim>\<open>WidgetPool::getWidget\<close>, on the key as a number: the pointer stored for the key,
  or \<^verbatim>\<open>nullptr\<close>.
\<close>

definition getWidget :: "nat HashTable \<Rightarrow> nat \<Rightarrow> nat" where
  "getWidget table k = (case find_ht k table of None \<Rightarrow> 0 | Some result \<Rightarrow> result)"

subsection \<open>WidgetBuilder (ui/builder/WidgetBuilder.cpp)\<close>

datatype BuilderState =
  UNINITIALIZED | SERVICES_SET | ERROR_SERVICES | BUILDING | ERROR_BUILDING | COMPLETE

record WidgetBuilder =
  state :: BuilderState
  widgetRegistry :: service
  widgetPool :: service

definition new_WidgetBuilder :: WidgetBuilder where
  "new_WidgetBuilder =
     \<lparr>state = BuilderState.UNINITIALIZED, widgetRegistry = nullptr, widgetPool = nullptr\<rparr>"

definition setServices :: "WidgetBuilder \<Rightarrow> service \<Rightarrow> service \<Rightarrow> WidgetBuilder" where
  "setServices b widgetRegistry' widgetPool' =
     (let b1 = b\<lparr>widgetRegistry := widgetRegistry', widgetPool := widgetPool'\<rparr>
      in if widgetRegistry b1 \<noteq> nullptr \<and> widgetPool b1 \<noteq> nullptr
         then b1\<lparr>state := BuilderState.SERVICES_SET\<rparr>
         else b1\<lparr>state := BuilderState.ERROR_SERVICES\<rparr>)"

text \<open>
  The loop of \<^verbatim>\<open>setAttribute\<close> over the entries of the registry. It returns
  \<open>False\<close> where the code sets \<^verbatim>\<open>ERROR_BUILDING\<close> and returns, \<open>True\<close> where the
  loop runs to its end; \<^verbatim>\<open>setAttribute\<close> sets the state from that.
\<close>

fun setAttribute_loop :: "service \<Rightarrow> nat Entry list \<Rightarrow> World \<Rightarrow> fault + (bool \<times> World)" where
  "setAttribute_loop widgetPool' [] w = Inr (True, w)"
| "setAttribute_loop widgetPool' (entry # rest) w =
     (if widgetPool' = nullptr then Inl NullPointer
      else
        (let widgetType = key entry;
             widgetAttributes = val entry;
             widgetPointer = getWidget (pool w) widgetType
         in if widgetAttributes \<noteq> 0 \<and> widgetPointer \<noteq> 0 then
              (if widgetType = key_of GRAPH then
                 (case attributes w widgetAttributes of
                    None \<Rightarrow> Inl NullPointer
                  | Some a \<Rightarrow>
                      (case widgets w widgetPointer of
                         Some (GraticulesWidget graticules) \<Rightarrow>
                           (case configure graticules (boundary (geometry a))
                                   (Graph.originColor (data a))
                                   (Graph.originThickness (data a))
                                   (Graph.gridlineColor (data a))
                                   (Graph.gridlineThickness (data a))
                                   (xDivisionQty (data a))
                                   (yDivisionQty (data a))
                                   (Graph.xOriginIndex (data a))
                                   (Graph.yOriginIndex (data a)) of
                              Inl f \<Rightarrow> Inl f
                            | Inr graticules' \<Rightarrow>
                                setAttribute_loop widgetPool' rest
                                  (w\<lparr>widgets := (widgets w)(widgetPointer \<mapsto> GraticulesWidget graticules')\<rparr>))
                       | _ \<Rightarrow> Inl BadCast))
               else setAttribute_loop widgetPool' rest w)
            else Inr (False, w)))"

definition setAttribute :: "WidgetBuilder \<times> World \<Rightarrow> fault + (WidgetBuilder \<times> World)" where
  "setAttribute bw =
     (case bw of (b, w) \<Rightarrow>
        if widgetRegistry b = nullptr then Inl NullPointer
        else (case setAttribute_loop (widgetPool b) (entries (registry w)) w of
                Inl f \<Rightarrow> Inl f
              | Inr (finished, w') \<Rightarrow>
                  Inr (b\<lparr>state := (if finished then BuilderState.COMPLETE
                                     else BuilderState.ERROR_BUILDING)\<rparr>, w')))"

text \<open>The \<^verbatim>\<open>while (building)\<close> loop of \<^verbatim>\<open>setWidgets\<close>.\<close>

function setWidgets :: "WidgetBuilder \<times> World \<Rightarrow> fault + (WidgetBuilder \<times> World)" where
  "setWidgets (b, w) =
     (case state b of
        BuilderState.SERVICES_SET \<Rightarrow> setWidgets (b\<lparr>state := BuilderState.BUILDING\<rparr>, w)
      | BuilderState.BUILDING \<Rightarrow>
          (case setAttribute (b, w) of
             Inl f \<Rightarrow> Inl f
           | Inr bw' \<Rightarrow> setWidgets bw')
      | BuilderState.COMPLETE \<Rightarrow> Inr (b, w)
      | BuilderState.ERROR_BUILDING \<Rightarrow> Inr (b, w)
      | _ \<Rightarrow> Inr (b\<lparr>state := BuilderState.ERROR_BUILDING\<rparr>, w))"
  by pat_completeness auto
termination
  by (relation "measure (\<lambda>(b, w). case state b of BuilderState.SERVICES_SET \<Rightarrow> 2
                                     | BuilderState.BUILDING \<Rightarrow> 1 | _ \<Rightarrow> 0)")
     (auto simp: setAttribute_def split: if_splits sum.splits prod.splits)

declare setWidgets.simps [simp del]

text \<open>An entry that the loop accepts: both of its pointers are non-null.\<close>

definition matched :: "World \<Rightarrow> nat Entry \<Rightarrow> bool" where
  "matched w entry = (val entry \<noteq> 0 \<and> getWidget (pool w) (key entry) \<noteq> 0)"

text \<open>
  The entries that the loop reaches and accepts: those before the first entry with a null
  pointer, where \<^verbatim>\<open>setAttribute\<close> returns.
\<close>

definition reached :: "World \<Rightarrow> nat Entry list" where
  "reached w = takeWhile (matched w) (entries (registry w))"

text \<open>
  What \<^verbatim>\<open>configure\<close> needs in order not to fault on an entry of the graph type: the
  attribute record is there, its division counts are between 1 and \<^verbatim>\<open>MAX_GRATICULES\<close>,
  and the pool instance is a \<^verbatim>\<open>Graticules\<close>. \<open>graphs_ready\<close> asks this of the
  entries of the graph type that the loop reaches, and of no other entry.
\<close>

definition graph_ready :: "World \<Rightarrow> nat Entry \<Rightarrow> bool" where
  "graph_ready w entry =
     (case attributes w (val entry) of
        None \<Rightarrow> False
      | Some a \<Rightarrow>
          1 \<le> sint (xDivisionQty (data a)) \<and> sint (xDivisionQty (data a)) \<le> int MAX_GRATICULES
          \<and> 1 \<le> sint (yDivisionQty (data a)) \<and> sint (yDivisionQty (data a)) \<le> int MAX_GRATICULES
          \<and> (case widgets w (getWidget (pool w) (key entry)) of
                Some (GraticulesWidget graticules) \<Rightarrow> True
              | _ \<Rightarrow> False))"

definition graphs_ready :: "World \<Rightarrow> bool" where
  "graphs_ready w =
     list_all (\<lambda>entry. key entry \<noteq> key_of GRAPH \<or> graph_ready w entry) (reached w)"

subsection \<open>Screen (ui/lvgl/Screen.h)\<close>

datatype ScreenState =
  UNINITIALIZED | SERVICES_SET | ERROR_SERVICES | WIDGETS_REGISTERED | ERROR_REGISTRATION
  | ATTRIBUTES_SET | ERROR_ATTRIBUTES | COMPLETE

record Screen =
  state :: ScreenState
  widgetRegistry :: service
  widgetPool :: service

text \<open>
  \<^verbatim>\<open>Screen::setServices\<close> is \<open>Screen_setServices\<close>, next to the \<open>setServices\<close> of the
  builder; the fields and states of the two machines are told apart by their qualified
  names.
\<close>

definition new_Screen :: Screen where
  "new_Screen =
     \<lparr>state = ScreenState.UNINITIALIZED, widgetRegistry = nullptr, widgetPool = nullptr\<rparr>"

definition Screen_setServices :: "Screen \<Rightarrow> service \<Rightarrow> service \<Rightarrow> Screen" where
  "Screen_setServices s widgetRegistry' widgetPool' =
     (let s1 = s\<lparr>widgetRegistry := widgetRegistry', widgetPool := widgetPool'\<rparr>
      in if widgetRegistry s1 \<noteq> nullptr \<and> widgetPool s1 \<noteq> nullptr
         then s1\<lparr>state := ScreenState.SERVICES_SET\<rparr>
         else s1\<lparr>state := ScreenState.ERROR_SERVICES\<rparr>)"

text \<open>
  \<^verbatim>\<open>drawWidgets\<close> reads the pool and every widget in it, hands each to the rendering
  library, and sets the state.
\<close>

definition drawWidgets :: "Screen \<Rightarrow> World \<Rightarrow> fault + Screen" where
  "drawWidgets s w =
     (if widgetPool s = nullptr then Inl NullPointer
      else if list_all (\<lambda>entry. val entry \<noteq> 0 \<and> widgets w (val entry) \<noteq> None) (entries (pool w))
      then Inr (s\<lparr>state := ScreenState.COMPLETE\<rparr>)
      else Inl NullPointer)"

subsection \<open>Worlds\<close>

text \<open>
  What the build stage may change: nothing but the contents of \<^verbatim>\<open>Graticules\<close>
  instances.
\<close>

definition evolves :: "World \<Rightarrow> World \<Rightarrow> bool" where
  "evolves w w' =
     (registry w' = registry w \<and> pool w' = pool w \<and> attributes w' = attributes w
      \<and> (\<forall>p. widgets w' p = widgets w p
              \<or> (\<exists>g g'. widgets w p = Some (GraticulesWidget g)
                        \<and> widgets w' p = Some (GraticulesWidget g'))))"

text \<open>\<^verbatim>\<open>WidgetRegistry::registerWidget\<close> and \<^verbatim>\<open>WidgetPool::addWidget\<close>.\<close>

definition registerWidget :: "World \<Rightarrow> Type \<Rightarrow> nat \<Rightarrow> World" where
  "registerWidget w k v = w\<lparr>registry := snd (insert_ht (key_of k) v (registry w))\<rparr>"

definition addWidget :: "World \<Rightarrow> Type \<Rightarrow> nat \<Rightarrow> World" where
  "addWidget w k v = w\<lparr>pool := snd (insert_ht (key_of k) v (pool w))\<rparr>"

text \<open>
  Example worlds, after the definitions of the repository: a graph with 10 by 8
  divisions and a label, at the addresses 1 and 2 of each store. In \<open>demo_world\<close> both
  are registered and both have an instance in the pool; in \<open>unmatched_world\<close> the label
  has no instance.
\<close>

definition graticules_attributes :: Attributes where
  "graticules_attributes =
     \<lparr>isCustom = True,
      geometry = \<lparr>mode = AREA_PERCENT, width = 480, height = 384, percentSize = 70,
                  boundary = screen_boundary\<rparr>,
      data = \<lparr>Graph.originColor = 0xF800, Graph.originThickness = 2, Graph.gridlineColor = 0,
              Graph.gridlineThickness = 1, xDivisionQty = 10, yDivisionQty = 8,
              Graph.xOriginIndex = 5, Graph.yOriginIndex = 4\<rparr>\<rparr>"

definition label_attributes :: Attributes where
  "label_attributes =
     \<lparr>isCustom = False,
      geometry = \<lparr>mode = ABSOLUTE, width = 150, height = 25, percentSize = 0,
                  boundary = zero_segment\<rparr>,
      data = \<lparr>Graph.originColor = 0, Graph.originThickness = 0, Graph.gridlineColor = 0,
              Graph.gridlineThickness = 0, xDivisionQty = 0, yDivisionQty = 0,
              Graph.xOriginIndex = 0, Graph.yOriginIndex = 0\<rparr>\<rparr>"

definition empty_world :: World where
  "empty_world =
     \<lparr>registry = empty_table MAX_WIDGETS, pool = empty_table MAX_WIDGETS,
      attributes = Map.empty, widgets = Map.empty\<rparr>"

definition unmatched_world :: World where
  "unmatched_world =
     addWidget
       (registerWidget
          (registerWidget
             (empty_world\<lparr>attributes := [1 \<mapsto> graticules_attributes, 2 \<mapsto> label_attributes],
                          widgets := [1 \<mapsto> GraticulesWidget new_Graticules, 2 \<mapsto> PlainWidget]\<rparr>)
             GRAPH 1)
          LABEL 2)
       GRAPH 1"

definition demo_world :: World where
  "demo_world = addWidget unmatched_world LABEL 2"

text \<open>
  Two worlds whose graph has no horizontal division. In \<open>zero_division_world\<close> the
  graph is the only entry, with its record and its \<^verbatim>\<open>Graticules\<close> instance. In
  \<open>unreached_world\<close> a label without instance comes before it in the table.
\<close>

definition zero_division_attributes :: Attributes where
  "zero_division_attributes =
     graticules_attributes\<lparr>data := (data graticules_attributes)\<lparr>xDivisionQty := 0\<rparr>\<rparr>"

definition zero_division_world :: World where
  "zero_division_world =
     addWidget
       (registerWidget
          (empty_world\<lparr>attributes := [1 \<mapsto> zero_division_attributes],
                       widgets := [1 \<mapsto> GraticulesWidget new_Graticules]\<rparr>)
          GRAPH 1)
       GRAPH 1"

definition unreached_world :: World where
  "unreached_world =
     addWidget
       (registerWidget
          (registerWidget
             (empty_world\<lparr>attributes := [1 \<mapsto> zero_division_attributes, 2 \<mapsto> label_attributes],
                          widgets := [1 \<mapsto> GraticulesWidget new_Graticules]\<rparr>)
             GRAPH 1)
          LABEL 2)
       GRAPH 1"

subsection \<open>Screen::setRegistry (ui/lvgl/Screen.h)\<close>













section \<open>Properties of the hash table\<close>

subsection \<open>The probe sequence\<close>

lemma probe_inj_le:
  fixes h :: nat
  assumes "i \<le> j" "j < C" "(h + i) mod C = (h + j) mod C"
  shows "i = j"
proof -
  have "C dvd (h + j) - (h + i)"
    using assms(1,3) mod_eq_dvd_iff_nat[of "h + i" "h + j" C] by simp
  then have "C dvd j - i" by simp
  moreover have "j - i < C" using assms(2) by arith
  ultimately have "j - i = 0" using nat_dvd_not_less by (cases "j - i = 0") auto
  with assms(1) show ?thesis by simp
qed

lemma probe_inj:
  fixes h :: nat
  assumes "i < C" "j < C" "(h + i) mod C = (h + j) mod C"
  shows "i = j"
proof (cases "i \<le> j")
  case True
  then show ?thesis using probe_inj_le assms by blast
next
  case False
  then have "j \<le> i" by simp
  then have "j = i" using probe_inj_le[of j i C h] assms by simp
  then show ?thesis by simp
qed

lemma probe_surj:
  fixes h :: nat
  assumes "p < C"
  shows "\<exists>i<C. (h + i) mod C = p"
proof -
  let ?i = "(p + C - h mod C) mod C"
  have "?i < C" using assms by simp
  moreover have "(h + ?i) mod C = p"
  proof -
    have "(h + ?i) mod C = (h mod C + (p + C - h mod C)) mod C"
      by (simp add: mod_add_eq mod_add_right_eq mod_add_left_eq)
    also have "h mod C + (p + C - h mod C) = p + C"
      using assms by (simp add: less_imp_le_nat trans_le_add2 mod_le_divisor)
    finally show ?thesis using assms by simp
  qed
  ultimately show ?thesis by blast
qed

lemma first_exists:
  fixes i :: nat
  assumes "i \<le> j" "P j"
  shows "\<exists>m. i \<le> m \<and> m \<le> j \<and> P m \<and> (\<forall>j'. i \<le> j' \<and> j' < m \<longrightarrow> \<not> P j')"
proof -
  let ?Q = "\<lambda>m. i \<le> m \<and> P m"
  have q: "?Q j" using assms by simp
  have "?Q (Least ?Q)" using q by (rule LeastI)
  moreover have "Least ?Q \<le> j" using q by (rule Least_le)
  moreover have "\<forall>j'. i \<le> j' \<and> j' < Least ?Q \<longrightarrow> \<not> P j'"
    using not_less_Least by blast
  ultimately show ?thesis by blast
qed

subsection \<open>insert\<close>

lemma insert_loop_full:
  "(\<forall>j. i \<le> j \<and> j < length t \<longrightarrow> \<not> usable k t ((h + j) mod length t))
   \<Longrightarrow> insert_loop k v t h i = (False, t)"
proof (induction k v t h i rule: insert_loop.induct)
  case (1 k v t h i)
  show ?case
  proof (cases "i < length t")
    case False
    then show ?thesis by (subst insert_loop.simps) simp
  next
    case True
    then have nu: "\<not> usable k t ((h + i) mod length t)" using "1.prems" by simp
    then have "insert_loop k v t h i = insert_loop k v t h (i + 1)"
      using True by (subst insert_loop.simps) (auto simp: usable_def Let_def)
    moreover have "insert_loop k v t h (i + 1) = (False, t)"
      using "1.IH"[OF True refl] nu "1.prems" by (auto simp: usable_def Let_def)
    ultimately show ?thesis by simp
  qed
qed

lemma insert_loop_first:
  "i \<le> j \<Longrightarrow> j < length t \<Longrightarrow> usable k t ((h + j) mod length t)
   \<Longrightarrow> (\<forall>j'. i \<le> j' \<and> j' < j \<longrightarrow> \<not> usable k t ((h + j') mod length t))
   \<Longrightarrow> insert_loop k v t h i
       = (True, t[(h + j) mod length t := \<lparr>key = k, val = v, occupied = True, deleted = False\<rparr>])"
proof (induction k v t h i rule: insert_loop.induct)
  case (1 k v t h i)
  have il: "i < length t" using "1.prems" by simp
  show ?case
  proof (cases "i = j")
    case True
    then show ?thesis using "1.prems" il by (subst insert_loop.simps) (auto simp: usable_def Let_def)
  next
    case False
    then have lt: "i < j" using "1.prems" by simp
    then have nu: "\<not> usable k t ((h + i) mod length t)" using "1.prems" by simp
    then have "insert_loop k v t h i = insert_loop k v t h (i + 1)"
      using il by (subst insert_loop.simps) (auto simp: usable_def Let_def)
    moreover have "insert_loop k v t h (i + 1)
       = (True, t[(h + j) mod length t := \<lparr>key = k, val = v, occupied = True, deleted = False\<rparr>])"
      using "1.IH"[OF il refl] nu "1.prems" lt by (auto simp: usable_def Let_def)
    ultimately show ?thesis by simp
  qed
qed

subsection \<open>find\<close>

lemma find_loop_none:
  "(\<forall>j. i \<le> j \<and> j < length t \<longrightarrow> \<not> hit k t ((h + j) mod length t))
   \<Longrightarrow> find_loop k t h i = None"
proof (induction k t h i rule: find_loop.induct)
  case (1 k t h i)
  show ?case
  proof (cases "i < length t")
    case False
    then show ?thesis by (subst find_loop.simps) simp
  next
    case True
    then have nu: "\<not> hit k t ((h + i) mod length t)" using "1.prems" by simp
    then have "find_loop k t h i = find_loop k t h (i + 1)"
      using True by (subst find_loop.simps) (auto simp: hit_def Let_def)
    moreover have "find_loop k t h (i + 1) = None"
      using "1.IH"[OF True refl] nu "1.prems" by (auto simp: hit_def Let_def)
    ultimately show ?thesis by simp
  qed
qed

lemma find_loop_first:
  "i \<le> j \<Longrightarrow> j < length t \<Longrightarrow> hit k t ((h + j) mod length t)
   \<Longrightarrow> (\<forall>j'. i \<le> j' \<and> j' < j \<longrightarrow> \<not> hit k t ((h + j') mod length t))
   \<Longrightarrow> find_loop k t h i = Some (val (t ! ((h + j) mod length t)))"
proof (induction k t h i rule: find_loop.induct)
  case (1 k t h i)
  have il: "i < length t" using "1.prems" by simp
  show ?case
  proof (cases "i = j")
    case True
    then show ?thesis using "1.prems" il by (subst find_loop.simps) (auto simp: hit_def Let_def)
  next
    case False
    then have lt: "i < j" using "1.prems" by simp
    then have nu: "\<not> hit k t ((h + i) mod length t)" using "1.prems" by simp
    then have "find_loop k t h i = find_loop k t h (i + 1)"
      using il by (subst find_loop.simps) (auto simp: hit_def Let_def)
    moreover have "find_loop k t h (i + 1) = Some (val (t ! ((h + j) mod length t)))"
      using "1.IH"[OF il refl] nu "1.prems" lt by (auto simp: hit_def Let_def)
    ultimately show ?thesis by simp
  qed
qed

subsection \<open>remove\<close>

lemma remove_loop_none:
  "(\<forall>j. i \<le> j \<and> j < length t \<longrightarrow> \<not> hit k t ((h + j) mod length t))
   \<Longrightarrow> remove_loop k t h i = (False, t)"
proof (induction k t h i rule: remove_loop.induct)
  case (1 k t h i)
  show ?case
  proof (cases "i < length t")
    case False
    then show ?thesis by (subst remove_loop.simps) simp
  next
    case True
    then have nu: "\<not> hit k t ((h + i) mod length t)" using "1.prems" by simp
    then have "remove_loop k t h i = remove_loop k t h (i + 1)"
      using True by (subst remove_loop.simps) (auto simp: hit_def Let_def)
    moreover have "remove_loop k t h (i + 1) = (False, t)"
      using "1.IH"[OF True refl] nu "1.prems" by (auto simp: hit_def Let_def)
    ultimately show ?thesis by simp
  qed
qed

lemma remove_loop_first:
  "i \<le> j \<Longrightarrow> j < length t \<Longrightarrow> hit k t ((h + j) mod length t)
   \<Longrightarrow> (\<forall>j'. i \<le> j' \<and> j' < j \<longrightarrow> \<not> hit k t ((h + j') mod length t))
   \<Longrightarrow> remove_loop k t h i
       = (True, t[(h + j) mod length t := (t ! ((h + j) mod length t))\<lparr>deleted := True, val := 0, key := 0\<rparr>])"
proof (induction k t h i rule: remove_loop.induct)
  case (1 k t h i)
  have il: "i < length t" using "1.prems" by simp
  show ?case
  proof (cases "i = j")
    case True
    then show ?thesis using "1.prems" il by (subst remove_loop.simps) (auto simp: hit_def Let_def)
  next
    case False
    then have lt: "i < j" using "1.prems" by simp
    then have nu: "\<not> hit k t ((h + i) mod length t)" using "1.prems" by simp
    then have "remove_loop k t h i = remove_loop k t h (i + 1)"
      using il by (subst remove_loop.simps) (auto simp: hit_def Let_def)
    moreover have "remove_loop k t h (i + 1)
       = (True, t[(h + j) mod length t := (t ! ((h + j) mod length t))\<lparr>deleted := True, val := 0, key := 0\<rparr>])"
      using "1.IH"[OF il refl] nu "1.prems" lt by (auto simp: hit_def Let_def)
    ultimately show ?thesis by simp
  qed
qed

lemma insert_ht_cases:
  "(insert_ht k v t = (False, t) \<and> (\<forall>j<length t. \<not> usable k t ((k mod length t + j) mod length t)))
   \<or> (\<exists>j<length t. usable k t ((k mod length t + j) mod length t)
        \<and> (\<forall>j'<j. \<not> usable k t ((k mod length t + j') mod length t))
        \<and> insert_ht k v t
            = (True, t[(k mod length t + j) mod length t := \<lparr>key = k, val = v, occupied = True, deleted = False\<rparr>]))"
proof (cases "\<exists>j<length t. usable k t ((k mod length t + j) mod length t)")
  case False
  then have "insert_loop k v t (k mod length t) 0 = (False, t)"
    by (intro insert_loop_full) blast
  with False show ?thesis by (simp add: insert_ht_def hashFunction_def)
next
  case True
  then obtain j where j: "j < length t" "usable k t ((k mod length t + j) mod length t)" by blast
  let ?P = "\<lambda>j. j < length t \<and> usable k t ((k mod length t + j) mod length t)"
  have "\<exists>m. 0 \<le> m \<and> m \<le> j \<and> ?P m \<and> (\<forall>j'. 0 \<le> j' \<and> j' < m \<longrightarrow> \<not> ?P j')"
    using j by (intro first_exists) auto
  then obtain m where m: "m < length t" "usable k t ((k mod length t + m) mod length t)"
      "\<forall>j'<m. \<not> usable k t ((k mod length t + j') mod length t)"
    by force
  have "insert_loop k v t (k mod length t) 0
       = (True, t[(k mod length t + m) mod length t := \<lparr>key = k, val = v, occupied = True, deleted = False\<rparr>])"
    using m by (intro insert_loop_first) auto
  with m show ?thesis by (auto simp: insert_ht_def hashFunction_def)
qed

lemma find_ht_cases:
  "(find_ht k t = None \<and> (\<forall>j<length t. \<not> hit k t ((k mod length t + j) mod length t)))
   \<or> (\<exists>j<length t. hit k t ((k mod length t + j) mod length t)
        \<and> (\<forall>j'<j. \<not> hit k t ((k mod length t + j') mod length t))
        \<and> find_ht k t = Some (val (t ! ((k mod length t + j) mod length t))))"
proof (cases "\<exists>j<length t. hit k t ((k mod length t + j) mod length t)")
  case False
  then have "find_loop k t (k mod length t) 0 = None"
    by (intro find_loop_none) blast
  with False show ?thesis by (simp add: find_ht_def hashFunction_def)
next
  case True
  then obtain j where j: "j < length t" "hit k t ((k mod length t + j) mod length t)" by blast
  let ?P = "\<lambda>j. j < length t \<and> hit k t ((k mod length t + j) mod length t)"
  have "\<exists>m. 0 \<le> m \<and> m \<le> j \<and> ?P m \<and> (\<forall>j'. 0 \<le> j' \<and> j' < m \<longrightarrow> \<not> ?P j')"
    using j by (intro first_exists) auto
  then obtain m where m: "m < length t" "hit k t ((k mod length t + m) mod length t)"
      "\<forall>j'<m. \<not> hit k t ((k mod length t + j') mod length t)"
    by force
  have "find_loop k t (k mod length t) 0 = Some (val (t ! ((k mod length t + m) mod length t)))"
    using m by (intro find_loop_first) auto
  with m show ?thesis by (auto simp: find_ht_def hashFunction_def)
qed

lemma remove_cases:
  "(remove k t = (False, t) \<and> (\<forall>j<length t. \<not> hit k t ((k mod length t + j) mod length t)))
   \<or> (\<exists>j<length t. hit k t ((k mod length t + j) mod length t)
        \<and> (\<forall>j'<j. \<not> hit k t ((k mod length t + j') mod length t))
        \<and> remove k t
            = (True, t[(k mod length t + j) mod length t :=
                 (t ! ((k mod length t + j) mod length t))\<lparr>deleted := True, val := 0, key := 0\<rparr>]))"
proof (cases "\<exists>j<length t. hit k t ((k mod length t + j) mod length t)")
  case False
  then have "remove_loop k t (k mod length t) 0 = (False, t)"
    by (intro remove_loop_none) blast
  with False show ?thesis by (simp add: remove_def hashFunction_def)
next
  case True
  then obtain j where j: "j < length t" "hit k t ((k mod length t + j) mod length t)" by blast
  let ?P = "\<lambda>j. j < length t \<and> hit k t ((k mod length t + j) mod length t)"
  have "\<exists>m. 0 \<le> m \<and> m \<le> j \<and> ?P m \<and> (\<forall>j'. 0 \<le> j' \<and> j' < m \<longrightarrow> \<not> ?P j')"
    using j by (intro first_exists) auto
  then obtain m where m: "m < length t" "hit k t ((k mod length t + m) mod length t)"
      "\<forall>j'<m. \<not> hit k t ((k mod length t + j') mod length t)"
    by force
  have "remove_loop k t (k mod length t) 0
       = (True, t[(k mod length t + m) mod length t :=
                 (t ! ((k mod length t + m) mod length t))\<lparr>deleted := True, val := 0, key := 0\<rparr>])"
    using m by (intro remove_loop_first) auto
  with m show ?thesis by (auto simp: remove_def hashFunction_def)
qed

lemma length_insert_ht [simp]: "length (snd (insert_ht k v t)) = length t"
  using insert_ht_cases[of k v t] by auto

lemma length_remove [simp]: "length (snd (remove k t)) = length t"
  using remove_cases[of k t] by auto

lemma length_step [simp]: "length (step t c) = length t"
  by (cases c) simp_all

lemma length_run [simp]: "length (run cs t) = length t"
  unfolding run_def by (induction cs arbitrary: t) simp_all

subsection \<open>The probe-chain invariant\<close>

lemma chain_inv_empty: "chain_inv (empty_table C)"
proof -
  have "\<not> hit k (empty_table C) ((k mod C + i) mod C)" if "i < C" for k i
  proof -
    have "(k mod C + i) mod C < C" using that by simp
    then show ?thesis by (simp add: empty_table_def hit_def empty_entry_def)
  qed
  then show ?thesis unfolding chain_inv_def by (auto simp: empty_table_def)
qed

lemma chain_inv_insert:
  assumes "chain_inv t"
  shows "chain_inv (snd (insert_ht k v t))"
proof -
  let ?C = "length t"
  from insert_ht_cases[of k v t] show ?thesis
  proof
    assume "insert_ht k v t = (False, t) \<and> (\<forall>j<?C. \<not> usable k t ((k mod ?C + j) mod ?C))"
    then show ?thesis using assms by simp
  next
    assume "\<exists>j<?C. usable k t ((k mod ?C + j) mod ?C)
        \<and> (\<forall>j'<j. \<not> usable k t ((k mod ?C + j') mod ?C))
        \<and> insert_ht k v t
            = (True, t[(k mod ?C + j) mod ?C := \<lparr>key = k, val = v, occupied = True, deleted = False\<rparr>])"
    then obtain j0 where j0: "j0 < ?C" "\<forall>j'<j0. \<not> usable k t ((k mod ?C + j') mod ?C)"
      and res: "insert_ht k v t
            = (True, t[(k mod ?C + j0) mod ?C := \<lparr>key = k, val = v, occupied = True, deleted = False\<rparr>])"
      by blast
    let ?p0 = "(k mod ?C + j0) mod ?C"
    let ?t' = "t[?p0 := \<lparr>key = k, val = v, occupied = True, deleted = False\<rparr>]"
    have Cpos: "0 < ?C" using j0(1) by linarith
    have occ_mono: "occupied (?t' ! q)" if "occupied (t ! q)" "q < ?C" for q
      using that by (cases "q = ?p0") simp_all
    have "chain_inv ?t'"
      unfolding chain_inv_def
    proof (intro allI impI, elim conjE)
      fix k' i j
      assume i: "i < length ?t'" and h: "hit k' ?t' ((k' mod length ?t' + i) mod length ?t')" and ji: "j < i"
      let ?q = "(k' mod ?C + i) mod ?C"
      have qlt: "?q < ?C" using Cpos by simp
      have jlt: "(k' mod ?C + j) mod ?C < ?C" using Cpos by simp
      show "occupied (?t' ! ((k' mod length ?t' + j) mod length ?t'))"
      proof (cases "?q = ?p0")
        case True
        then have "key (?t' ! ?q) = k" using qlt by simp
        then have kk: "k' = k" using h by (simp add: hit_def)
        then have "i = j0" using True i j0(1) probe_inj[of i ?C j0 "k mod ?C"] by simp
        then have "\<not> usable k t ((k mod ?C + j) mod ?C)" using j0(2) ji by simp
        then have "occupied (t ! ((k mod ?C + j) mod ?C))" by (simp add: usable_def)
        then show ?thesis using occ_mono jlt kk by simp
      next
        case False
        then have "hit k' t ?q" using h qlt by (simp add: hit_def)
        then have "occupied (t ! ((k' mod ?C + j) mod ?C))"
          using assms i ji unfolding chain_inv_def by auto
        then show ?thesis using occ_mono jlt by simp
      qed
    qed
    then show ?thesis using res by simp
  qed
qed

lemma chain_inv_remove:
  assumes "chain_inv t"
  shows "chain_inv (snd (remove k t))"
proof -
  let ?C = "length t"
  from remove_cases[of k t] show ?thesis
  proof
    assume "remove k t = (False, t) \<and> (\<forall>j<?C. \<not> hit k t ((k mod ?C + j) mod ?C))"
    then show ?thesis using assms by simp
  next
    assume "\<exists>j<?C. hit k t ((k mod ?C + j) mod ?C)
        \<and> (\<forall>j'<j. \<not> hit k t ((k mod ?C + j') mod ?C))
        \<and> remove k t
            = (True, t[(k mod ?C + j) mod ?C :=
                 (t ! ((k mod ?C + j) mod ?C))\<lparr>deleted := True, val := 0, key := 0\<rparr>])"
    then obtain j0 where j0: "j0 < ?C"
      and res: "remove k t
            = (True, t[(k mod ?C + j0) mod ?C :=
                 (t ! ((k mod ?C + j0) mod ?C))\<lparr>deleted := True, val := 0, key := 0\<rparr>])"
      by blast
    let ?p0 = "(k mod ?C + j0) mod ?C"
    let ?t' = "t[?p0 := (t ! ?p0)\<lparr>deleted := True, val := 0, key := 0\<rparr>]"
    have Cpos: "0 < ?C" using j0(1) by linarith
    have occ_eq: "occupied (?t' ! q) = occupied (t ! q)" if "q < ?C" for q
      using that by (cases "q = ?p0") simp_all
    have hit_sub: "hit k' t q" if "hit k' ?t' q" "q < ?C" for k' q
      using that by (cases "q = ?p0") (simp_all add: hit_def)
    have "chain_inv ?t'"
      unfolding chain_inv_def
    proof (intro allI impI, elim conjE)
      fix k' i j
      assume i: "i < length ?t'" and h: "hit k' ?t' ((k' mod length ?t' + i) mod length ?t')" and ji: "j < i"
      have "hit k' t ((k' mod ?C + i) mod ?C)" using h hit_sub Cpos by simp
      then have "occupied (t ! ((k' mod ?C + j) mod ?C))"
        using assms i ji unfolding chain_inv_def by auto
      then show "occupied (?t' ! ((k' mod length ?t' + j) mod length ?t'))"
        using occ_eq Cpos by simp
    qed
    then show ?thesis using res by simp
  qed
qed

lemma chain_inv_step: "chain_inv t \<Longrightarrow> chain_inv (step t c)"
  by (cases c) (simp_all add: chain_inv_insert chain_inv_remove)

lemma chain_inv_run: "chain_inv t \<Longrightarrow> chain_inv (run cs t)"
  unfolding run_def by (induction cs arbitrary: t) (simp_all add: chain_inv_step)

lemma find_spec_loop_eq:
  "chain_inv t \<Longrightarrow> h = k mod length t \<Longrightarrow> find_spec_loop k t h i = find_loop k t h i"
proof (induction k t h i rule: find_spec_loop.induct)
  case (1 k t h i)
  let ?C = "length t"
  have h: "h = k mod ?C" using "1.prems" by simp
  show ?case
  proof (cases "i < ?C")
    case False
    then show ?thesis
      by (subst find_spec_loop.simps, subst find_loop.simps) simp
  next
    case True
    let ?p = "(h + i) mod ?C"
    show ?thesis
    proof (cases "occupied (t ! ?p)")
      case False
      have "\<not> hit k t ((h + j) mod ?C)" if "i \<le> j" "j < ?C" for j
      proof
        assume hj: "hit k t ((h + j) mod ?C)"
        show False
        proof (cases "i = j")
          case True
          then show False using hj False by (simp add: hit_def)
        next
          case ne: False
          then have "i < j" using that by simp
          moreover have "\<forall>j'<j. occupied (t ! ((k mod ?C + j') mod ?C))"
            using "1.prems"(1) hj that(2) h unfolding chain_inv_def by blast
          ultimately have "occupied (t ! ?p)" using h by simp
          then show False using False by simp
        qed
      qed
      then have "find_loop k t h i = None" by (intro find_loop_none) blast
      moreover have "find_spec_loop k t h i = None"
        using True False by (subst find_spec_loop.simps) simp
      ultimately show ?thesis by simp
    next
      case occ: True
      show ?thesis
      proof (cases "\<not> deleted (t ! ?p) \<and> key (t ! ?p) = k")
        case True
        then show ?thesis using occ \<open>i < ?C\<close>
          by (subst find_spec_loop.simps, subst find_loop.simps) simp
      next
        case False
        have "find_spec_loop k t h i = find_spec_loop k t h (i + 1)"
          using occ False \<open>i < ?C\<close> by (subst find_spec_loop.simps) (auto simp: Let_def)
        also have "\<dots> = find_loop k t h (i + 1)"
          using "1.IH"[OF \<open>i < ?C\<close> refl _ _ "1.prems"] occ False by auto
        also have "\<dots> = find_loop k t h i"
          using occ False \<open>i < ?C\<close> by (subst (2) find_loop.simps) (auto simp: Let_def)
        finally show ?thesis .
      qed
    qed
  qed
qed

lemma find_spec_eq: "chain_inv t \<Longrightarrow> find_spec k t = find_ht k t"
  by (simp add: find_spec_def find_ht_def hashFunction_def find_spec_loop_eq)

lemma probe_lt:
  fixes h :: nat
  assumes "j < C"
  shows "(h + j) mod C < C"
proof -
  have "0 < C" using assms by linarith
  then show ?thesis by (rule mod_less_divisor)
qed

lemma insert_ht_full:
  assumes "\<forall>p<length t. occupied (t ! p) \<and> \<not> deleted (t ! p) \<and> key (t ! p) \<noteq> k"
  shows "insert_ht k v t = (False, t)"
proof -
  have "\<not> usable k t ((k mod length t + j) mod length t)" if "j < length t" for j
  proof -
    have "(k mod length t + j) mod length t < length t" using that by (rule probe_lt)
    then show ?thesis using assms by (simp add: usable_def)
  qed
  then show ?thesis using insert_ht_cases[of k v t] by blast
qed

lemma filled_empty: "filled (empty_table C) []"
  by (simp add: filled_def empty_table_def empty_entry_def)

lemma filled_insert:
  assumes f: "filled t kvs" and fresh: "k \<notin> fst ` set kvs" and room: "length kvs < length t"
  shows "fst (insert_ht k v t) \<and> filled (snd (insert_ht k v t)) (kvs @ [(k, v)])"
proof -
  let ?C = "length t"
  let ?occ = "{p. p < ?C \<and> occupied (t ! p)}"
  have nd: "\<And>p. p < ?C \<Longrightarrow> \<not> deleted (t ! p)" using f by (simp add: filled_def)
  have prs: "\<And>p. p < ?C \<Longrightarrow> occupied (t ! p) \<Longrightarrow> (key (t ! p), val (t ! p)) \<in> set kvs"
    using f by (simp add: filled_def)
  have ex: "\<And>k' v'. (k', v') \<in> set kvs \<Longrightarrow> \<exists>p<?C. hit k' t p \<and> val (t ! p) = v'"
    using f by (auto simp: filled_def)
  have cd: "card ?occ = length kvs" using f by (simp add: filled_def)
  have "\<exists>p<?C. \<not> occupied (t ! p)"
  proof (rule ccontr)
    assume "\<not> (\<exists>p<?C. \<not> occupied (t ! p))"
    then have "?occ = {..<?C}" by auto
    then have "card ?occ = ?C" by simp
    then show False using cd room by simp
  qed
  then obtain p where p: "p < ?C" "\<not> occupied (t ! p)" by blast
  obtain j where j: "j < ?C" "(k mod ?C + j) mod ?C = p" using probe_surj[OF p(1)] by blast
  have "usable k t ((k mod ?C + j) mod ?C)" using j p by (simp add: usable_def)
  then have "\<exists>j<?C. usable k t ((k mod ?C + j) mod ?C)" using j(1) by blast
  with insert_ht_cases[of k v t]
  obtain j0 where j0: "j0 < ?C" "usable k t ((k mod ?C + j0) mod ?C)"
    and res: "insert_ht k v t
            = (True, t[(k mod ?C + j0) mod ?C := \<lparr>key = k, val = v, occupied = True, deleted = False\<rparr>])"
    by blast
  let ?p0 = "(k mod ?C + j0) mod ?C"
  let ?t' = "t[?p0 := \<lparr>key = k, val = v, occupied = True, deleted = False\<rparr>]"
  have p0: "?p0 < ?C" using j0(1) by (rule probe_lt)
  have p0free: "\<not> occupied (t ! ?p0)"
  proof
    assume o: "occupied (t ! ?p0)"
    then have "(key (t ! ?p0), val (t ! ?p0)) \<in> set kvs" using prs p0 by blast
    then have "key (t ! ?p0) \<in> fst ` set kvs" by force
    then have "key (t ! ?p0) \<noteq> k" using fresh by metis
    then show False using j0(2) o nd[OF p0] by (simp add: usable_def)
  qed
  have a: "\<forall>q<length ?t'. \<not> deleted (?t' ! q)"
  proof (intro allI impI)
    fix q assume "q < length ?t'"
    then show "\<not> deleted (?t' ! q)" using nd by (cases "q = ?p0") simp_all
  qed
  have b: "\<forall>q<length ?t'. occupied (?t' ! q) \<longrightarrow> (key (?t' ! q), val (?t' ! q)) \<in> set (kvs @ [(k, v)])"
  proof (intro allI impI)
    fix q assume "q < length ?t'" "occupied (?t' ! q)"
    then show "(key (?t' ! q), val (?t' ! q)) \<in> set (kvs @ [(k, v)])"
      using prs by (cases "q = ?p0") simp_all
  qed
  have c: "\<forall>(k', v')\<in>set (kvs @ [(k, v)]). \<exists>q<length ?t'. hit k' ?t' q \<and> val (?t' ! q) = v'"
  proof (intro ballI, clarify)
    fix k' v' assume m: "(k', v') \<in> set (kvs @ [(k, v)])"
    show "\<exists>q<length ?t'. hit k' ?t' q \<and> val (?t' ! q) = v'"
    proof (cases "(k', v') \<in> set kvs")
      case True
      then obtain q where q: "q < ?C" "hit k' t q" "val (t ! q) = v'" using ex by blast
      then have "q \<noteq> ?p0" using p0free by (auto simp: hit_def)
      then have "hit k' ?t' q \<and> val (?t' ! q) = v'" using q by (simp add: hit_def)
      then show ?thesis using q(1) by auto
    next
      case False
      then have "k' = k" "v' = v" using m by auto
      then have "hit k' ?t' ?p0 \<and> val (?t' ! ?p0) = v'" using p0 by (simp add: hit_def)
      then show ?thesis using p0 by auto
    qed
  qed
  have "{q. q < length ?t' \<and> occupied (?t' ! q)} = insert ?p0 ?occ"
  proof (intro set_eqI iffI)
    fix q assume "q \<in> {q. q < length ?t' \<and> occupied (?t' ! q)}"
    then show "q \<in> insert ?p0 ?occ" by (cases "q = ?p0") simp_all
  next
    fix q assume "q \<in> insert ?p0 ?occ"
    then show "q \<in> {q. q < length ?t' \<and> occupied (?t' ! q)}"
      using p0 by (cases "q = ?p0") simp_all
  qed
  moreover have "?p0 \<notin> ?occ" using p0free by simp
  moreover have "finite ?occ" by simp
  ultimately have d: "card {q. q < length ?t' \<and> occupied (?t' ! q)} = length (kvs @ [(k, v)])"
    using cd by simp
  have "filled ?t' (kvs @ [(k, v)])"
    unfolding filled_def by (intro conjI a b c d)
  then show ?thesis using res by simp
qed

lemma run_snoc: "run (cs @ [c]) t = step (run cs t) c"
  by (simp add: run_def)

lemma inserts_snoc: "inserts (kvs @ [(k, v)]) = inserts kvs @ [Insert k v]"
  by (simp add: inserts_def)

lemma filled_run:
  "distinct (map fst kvs) \<Longrightarrow> length kvs \<le> C \<Longrightarrow> filled (run (inserts kvs) (empty_table C)) kvs"
proof (induction kvs rule: rev_induct)
  case Nil
  have "run (inserts []) (empty_table C) = (empty_table C :: 'a HashTable)"
    by (simp add: inserts_def run_def)
  then show ?case using filled_empty[of C] by simp
next
  case (snoc kv kvs)
  obtain k v where kv: "kv = (k, v)" by (cases kv)
  let ?t = "run (inserts kvs) (empty_table C)"
  have d: "distinct (map fst kvs)" using snoc.prems(1) by simp
  have l: "length kvs \<le> C" using snoc.prems(2) by simp
  have f: "filled ?t kvs" by (rule snoc.IH[OF d l])
  have "distinct (map fst kvs @ [k])" using snoc.prems(1) unfolding kv by simp
  then have fresh: "k \<notin> fst ` set kvs" by simp
  have "length ?t = C" by (simp add: empty_table_def)
  moreover have "length kvs < C" using snoc.prems(2) by simp
  ultimately have room: "length kvs < length ?t" by simp
  have "filled (snd (insert_ht k v ?t)) (kvs @ [(k, v)])"
    by (rule conjunct2[OF filled_insert[OF f fresh room]])
  moreover have "run (inserts (kvs @ [(k, v)])) (empty_table C) = snd (insert_ht k v ?t)"
    by (simp only: inserts_snoc run_snoc step.simps)
  ultimately show ?case unfolding kv by simp
qed

lemma filled_full:
  assumes "filled t kvs" "length kvs = length t" "p < length t"
  shows "occupied (t ! p)"
proof (rule ccontr)
  assume n: "\<not> occupied (t ! p)"
  let ?occ = "{p. p < length t \<and> occupied (t ! p)}"
  have "?occ \<subseteq> {..<length t} - {p}" using n by auto
  then have "card ?occ \<le> card ({..<length t} - {p})" by (intro card_mono) auto
  also have "\<dots> < length t" using assms(3) by simp
  finally show False using assms(1,2) by (simp add: filled_def)
qed

lemma filled_find:
  assumes f: "filled t kvs" and d: "distinct (map fst kvs)" and m: "(k, v) \<in> set kvs"
  shows "find_ht k t = Some v"
proof -
  let ?C = "length t"
  obtain p where p: "p < ?C" "hit k t p" using f m by (auto simp: filled_def)
  obtain j where j: "j < ?C" "(k mod ?C + j) mod ?C = p" using probe_surj[OF p(1)] by blast
  then have "\<exists>j<?C. hit k t ((k mod ?C + j) mod ?C)" using p(2) by blast
  with find_ht_cases[of k t]
  obtain j0 where j0: "j0 < ?C" "hit k t ((k mod ?C + j0) mod ?C)"
     "find_ht k t = Some (val (t ! ((k mod ?C + j0) mod ?C)))"
    by blast
  let ?p0 = "(k mod ?C + j0) mod ?C"
  have "?p0 < ?C" using j0(1) by (rule probe_lt)
  moreover have "occupied (t ! ?p0)" using j0(2) by (simp add: hit_def)
  moreover have "\<And>p. p < ?C \<Longrightarrow> occupied (t ! p) \<Longrightarrow> (key (t ! p), val (t ! p)) \<in> set kvs"
    using f by (simp add: filled_def)
  ultimately have "(key (t ! ?p0), val (t ! ?p0)) \<in> set kvs" by blast
  then have "(k, val (t ! ?p0)) \<in> set kvs" using j0(2) by (simp add: hit_def)
  then have "val (t ! ?p0) = v" using d m by (meson eq_key_imp_eq_value)
  then show ?thesis using j0(3) by simp
qed

subsection \<open>Claims about the hash table\<close>

text \<open>
  Claim C1 (round trip): after any run of inserts and removes within capacity,
  \<^verbatim>\<open>find(k)\<close> returns the value inserted last for \<open>k\<close> unless \<open>k\<close> was removed since,
  and \<^verbatim>\<open>find(k)\<close> returns \<^verbatim>\<open>nullptr\<close> right after \<^verbatim>\<open>remove(k)\<close> returned true.
  The code does not do this. Keys 1 and 11 have the same hash value in a table of 10
  slots. After \<^verbatim>\<open>insert(1,100)\<close>, \<^verbatim>\<open>insert(11,200)\<close>, \<^verbatim>\<open>remove(1)\<close> and
  \<^verbatim>\<open>insert(11,300)\<close> the second insert of key 11 has taken the tombstone of key 1,
  ahead of the slot that still holds key 11. Then \<^verbatim>\<open>remove(11)\<close> returns true and
  \<^verbatim>\<open>find(11)\<close> still returns the old value 200.
\<close>

theorem find_after_remove_stale:
  "find_ht 11 collision_table = Some 300
   \<and> fst (remove 11 collision_table)
   \<and> find_ht 11 (snd (remove 11 collision_table)) = Some 200"
  by code_simp

text \<open>
  Claim C2 (invariant): in every table reachable from the empty one, a key is in at most
  one occupied slot without tombstone, and the number of such slots is at most the
  capacity. The second half holds trivially; the first fails on the same run as for C1:
  key 11 is in two such slots.
\<close>

theorem duplicate_live_key:
  "live_keys collision_table = [11, 11]
   \<and> \<not> distinct (live_keys collision_table)
   \<and> getSize collision_table \<le> length collision_table"
  by code_simp

text \<open>
  Claim C5 (table full): if every slot is occupied, without tombstone, and holds a key
  other than \<open>k\<close>, then \<^verbatim>\<open>insert(k, v)\<close> returns false and leaves the table as it is.
  In particular, after as many distinct keys as the capacity have been inserted into the
  empty table, the insert of one more key returns false, the table is unchanged, and
  every pair inserted before is still found.
\<close>

theorem insert_full_table:
  "(0 < length t \<and> (\<forall>e\<in>set t. occupied e \<and> \<not> deleted e \<and> key e \<noteq> k)
      \<longrightarrow> insert_ht k v t = (False, t))
   \<and> (0 < C \<and> distinct (map fst kvs) \<and> length kvs = C \<and> k \<notin> fst ` set kvs
      \<longrightarrow> (let t' = run (inserts kvs) (empty_table C)
           in insert_ht k v t' = (False, t')
              \<and> (\<forall>(k', v')\<in>set kvs. find_ht k' (snd (insert_ht k v t')) = Some v')))"
proof (intro conjI impI)
  assume a: "0 < length t \<and> (\<forall>e\<in>set t. occupied e \<and> \<not> deleted e \<and> key e \<noteq> k)"
  then have "\<forall>p<length t. occupied (t ! p) \<and> \<not> deleted (t ! p) \<and> key (t ! p) \<noteq> k"
    by simp
  then show "insert_ht k v t = (False, t)" by (rule insert_ht_full)
next
  assume a: "0 < C \<and> distinct (map fst kvs) \<and> length kvs = C \<and> k \<notin> fst ` set kvs"
  let ?t = "run (inserts kvs) (empty_table C)"
  have len: "length ?t = C" by (simp add: empty_table_def)
  have f: "filled ?t kvs" using a by (intro filled_run) simp_all
  have "occupied (?t ! p) \<and> \<not> deleted (?t ! p) \<and> key (?t ! p) \<noteq> k" if "p < length ?t" for p
  proof -
    have o: "occupied (?t ! p)" using filled_full[OF f _ that] a len by simp
    moreover have "\<not> deleted (?t ! p)" using f that by (simp add: filled_def)
    moreover have "(key (?t ! p), val (?t ! p)) \<in> set kvs" using f that o by (simp add: filled_def)
    then have "key (?t ! p) \<in> fst ` set kvs" by force
    then have "key (?t ! p) \<noteq> k" using a by metis
    ultimately show ?thesis by simp
  qed
  then have full: "insert_ht k v ?t = (False, ?t)" by (intro insert_ht_full) blast
  have "find_ht k' ?t = Some v'" if "(k', v') \<in> set kvs" for k' v'
    using filled_find[OF f _ that] a by simp
  then show "let t' = ?t in insert_ht k v t' = (False, t')
              \<and> (\<forall>(k', v')\<in>set kvs. find_ht k' (snd (insert_ht k v t')) = Some v')"
    using full by (auto simp: Let_def)
qed

theorem insert_full_table_witness:
  "0 < length full_table
   \<and> list_all (\<lambda>e. occupied e \<and> \<not> deleted e \<and> key e \<noteq> 9) full_table
   \<and> (0::nat) < 3 \<and> distinct (map fst [(0::nat, 10::int), (3, 20), (6, 30)])
   \<and> length [(0::nat, 10::int), (3, 20), (6, 30)] = 3
   \<and> 9 \<notin> fst ` set [(0::nat, 10::int), (3, 20), (6, 30)]
   \<and> insert_ht 9 40 full_table = (False, full_table)
   \<and> find_ht 0 full_table = Some 10 \<and> find_ht 3 full_table = Some 20
   \<and> find_ht 6 full_table = Some 30"
proof -
  have t: "full_table
     = [\<lparr>key = 0, val = 10, occupied = True, deleted = False\<rparr>,
        \<lparr>key = 3, val = 20, occupied = True, deleted = False\<rparr>,
        \<lparr>key = 6, val = 30, occupied = True, deleted = False\<rparr>]"
    by code_simp
  have r: "run (inserts [(0, 10), (3, 20), (6, 30)]) (empty_table 3) = full_table"
    by (simp add: full_table_def)
  show ?thesis
    using insert_full_table[of full_table 9 40 3 "[(0, 10), (3, 20), (6, 30)]"]
    unfolding r unfolding t by (auto simp: Let_def)
qed

text \<open>
  Claim C10 (refinement): in every table reachable from the empty one by inserts and
  removes, the \<^verbatim>\<open>find\<close> of the code, which scans the whole probe sequence, returns
  what the \<^verbatim>\<open>find\<close> of the specification returns, which stops at the first slot
  that was never occupied.
\<close>

theorem find_refines_find_spec:
  "find_ht k (run calls (empty_table C)) = find_spec k (run calls (empty_table C))"
  by (simp add: find_spec_eq chain_inv_run chain_inv_empty)

theorem find_refines_find_spec_witness:
  "find_ht 11 collision_table = find_spec 11 collision_table
   \<and> find_spec 11 collision_table = Some 300
   \<and> find_spec 21 collision_table = None"
proof -
  have "find_ht 11 collision_table = find_spec 11 collision_table"
    unfolding collision_table_def by (rule find_refines_find_spec)
  moreover have "find_spec 11 collision_table = Some 300" by code_simp
  moreover have "find_spec 21 collision_table = None" by code_simp
  ultimately show ?thesis by simp
qed


section \<open>Properties of the grid geometry\<close>

lemma sint16_of_int:
  "- 32768 \<le> k \<Longrightarrow> k \<le> 32767 \<Longrightarrow> sint (to_int16_t k) = k"
  by (simp add: to_int16_t_def sint_sbintrunc' signed_take_bit_int_eq_self)

lemma sint16_range: "- 32768 \<le> sint (w :: 16 word) \<and> sint w \<le> 32767"
  using sint_ge[of w] sint_lt[of w] by simp

lemma sint8_range: "- 128 \<le> sint (w :: 8 word) \<and> sint w \<le> 127"
  using sint_ge[of w] sint_lt[of w] by simp

lemma sdiv_pos: "0 \<le> (a::int) \<Longrightarrow> 0 < b \<Longrightarrow> a sdiv b = a div b"
  by (simp add: signed_divide_int_def sgn_if)

lemma partial_steps_bound:
  fixes span d i :: int
  assumes "1 \<le> span" "0 < d" "0 \<le> i" "i < d"
  shows "0 \<le> i * (span div d) \<and> i * (span div d) \<le> span - 1"
proof -
  let ?q = "span div d"
  have q0: "0 \<le> ?q" using assms by (simp add: pos_imp_zdiv_nonneg_iff)
  have dq: "d * ?q \<le> span" using mult_div_mod_eq[of d span] pos_mod_sign[of d span] assms(2) by linarith
  have "i * ?q \<le> (d - 1) * ?q" using assms q0 by (intro mult_right_mono) auto
  also have "\<dots> = d * ?q - ?q" by (simp add: algebra_simps)
  finally have le: "i * ?q \<le> d * ?q - ?q" .
  show ?thesis
  proof (cases "?q = 0")
    case True
    then show ?thesis using assms by simp
  next
    case False
    then have "1 \<le> ?q" using q0 by simp
    then show ?thesis using le dq assms(3) q0 by (simp add: mult_nonneg_nonneg) 
  qed
qed

lemma time_lines_ok:
  "0 \<le> i \<Longrightarrow> sint (timeDivisions g) \<le> 20 \<Longrightarrow>
   \<exists>T. time_lines g i = Inr (g\<lparr>Time := T\<rparr>) \<and> length T = length (Time g)
     \<and> (\<forall>k. i \<le> k \<and> k < sint (timeDivisions g) \<and> nat k < length (Time g) \<longrightarrow>
           T ! nat k = \<lparr>x1 = to_int16_t (sint (x1 (privateBoundary g)) + k * sint (timeStepSize g)),
                        y1 = y1 (privateBoundary g),
                        x2 = to_int16_t (sint (x1 (privateBoundary g)) + k * sint (timeStepSize g)),
                        y2 = y2 (privateBoundary g)\<rparr>)
     \<and> (\<forall>n<length (Time g). \<not> (i \<le> int n \<and> int n < sint (timeDivisions g)) \<longrightarrow> T ! n = Time g ! n)"
proof (induction g i rule: time_lines.induct)
  case (1 g i)
  let ?td = "sint (timeDivisions g)"
  let ?seg = "\<lambda>k. \<lparr>x1 = to_int16_t (sint (x1 (privateBoundary g)) + k * sint (timeStepSize g)) ,
                        y1 = y1 (privateBoundary g),
                        x2 = to_int16_t (sint (x1 (privateBoundary g)) + k * sint (timeStepSize g)),
                        y2 = y2 (privateBoundary g)\<rparr>"
  show ?case
  proof (cases "i < ?td")
    case False
    then have "time_lines g i = Inr (g\<lparr>Time := Time g\<rparr>)"
      by (subst time_lines.simps) simp
    then show ?thesis using False by (intro exI[of _ "Time g"]) auto
  next
    case True
    have inb: "0 \<le> i \<and> nat i < MAX_GRATICULES"
      using True "1.prems" by (simp add: MAX_GRATICULES_def)
    let ?T0 = "(Time g)[nat i := ?seg i]"
    let ?g' = "g\<lparr>Time := ?T0\<rparr>"
    have unfold: "time_lines g i = time_lines ?g' (i + 1)"
      using True inb by (subst time_lines.simps) (simp add: Let_def)
    have "\<exists>T. time_lines ?g' (i + 1) = Inr (?g'\<lparr>Time := T\<rparr>) \<and> length T = length (Time ?g')
     \<and> (\<forall>k. i + 1 \<le> k \<and> k < sint (timeDivisions ?g') \<and> nat k < length (Time ?g') \<longrightarrow>
           T ! nat k = \<lparr>x1 = to_int16_t (sint (x1 (privateBoundary ?g')) + k * sint (timeStepSize ?g')),
                        y1 = y1 (privateBoundary ?g'),
                        x2 = to_int16_t (sint (x1 (privateBoundary ?g')) + k * sint (timeStepSize ?g')),
                        y2 = y2 (privateBoundary ?g')\<rparr>)
     \<and> (\<forall>n<length (Time ?g'). \<not> (i + 1 \<le> int n \<and> int n < sint (timeDivisions ?g')) \<longrightarrow> T ! n = Time ?g' ! n)"
      using "1.IH"[OF True refl inb] "1.prems" by simp
    then obtain T where T: "time_lines ?g' (i + 1) = Inr (g\<lparr>Time := T\<rparr>)" "length T = length (Time g)"
      "\<And>k. i + 1 \<le> k \<Longrightarrow> k < ?td \<Longrightarrow> nat k < length (Time g) \<Longrightarrow> T ! nat k = ?seg k"
      "\<And>n. n < length (Time g) \<Longrightarrow> \<not> (i + 1 \<le> int n \<and> int n < ?td) \<Longrightarrow> T ! n = ?T0 ! n"
      by auto
    have a: "T ! nat k = ?seg k" if "i \<le> k" "k < ?td" "nat k < length (Time g)" for k
    proof (cases "k = i")
      case True
      then have "T ! nat k = ?T0 ! nat i" using T(4)[of "nat i"] that inb by simp
      then show ?thesis using True that by simp
    next
      case False
      then show ?thesis using T(3)[of k] that by simp
    qed
    have b: "T ! n = Time g ! n" if "n < length (Time g)" "\<not> (i \<le> int n \<and> int n < ?td)" for n
    proof -
      have "int n \<noteq> i" using that(2) True by auto
      moreover have "0 \<le> i" using inb by simp
      ultimately have "n \<noteq> nat i" by auto
      moreover have "T ! n = ?T0 ! n" using T(4)[of n] that by auto
      ultimately show ?thesis by simp
    qed
    show ?thesis using unfold T(1,2) a b by (intro exI[of _ T]) auto
  qed
qed

lemma voltage_lines_ok:
  "0 \<le> i \<Longrightarrow> sint (voltageDivisions g) \<le> 20 \<Longrightarrow>
   \<exists>T. voltage_lines g i = Inr (g\<lparr>Voltage := T\<rparr>) \<and> length T = length (Voltage g)
     \<and> (\<forall>k. i \<le> k \<and> k < sint (voltageDivisions g) \<and> nat k < length (Voltage g) \<longrightarrow>
           T ! nat k = \<lparr>x1 = x1 (privateBoundary g),
                        y1 = to_int16_t (sint (y1 (privateBoundary g)) + k * sint (voltageStepSize g)),
                        x2 = x2 (privateBoundary g),
                        y2 = to_int16_t (sint (y1 (privateBoundary g)) + k * sint (voltageStepSize g))\<rparr>)
     \<and> (\<forall>n<length (Voltage g). \<not> (i \<le> int n \<and> int n < sint (voltageDivisions g)) \<longrightarrow> T ! n = Voltage g ! n)"
proof (induction g i rule: voltage_lines.induct)
  case (1 g i)
  let ?td = "sint (voltageDivisions g)"
  let ?seg = "\<lambda>k. \<lparr>x1 = x1 (privateBoundary g),
                        y1 = to_int16_t (sint (y1 (privateBoundary g)) + k * sint (voltageStepSize g)) ,
                        x2 = x2 (privateBoundary g),
                        y2 = to_int16_t (sint (y1 (privateBoundary g)) + k * sint (voltageStepSize g))\<rparr>"
  show ?case
  proof (cases "i < ?td")
    case False
    then have "voltage_lines g i = Inr (g\<lparr>Voltage := Voltage g\<rparr>)"
      by (subst voltage_lines.simps) simp
    then show ?thesis using False by (intro exI[of _ "Voltage g"]) auto
  next
    case True
    have inb: "0 \<le> i \<and> nat i < MAX_GRATICULES"
      using True "1.prems" by (simp add: MAX_GRATICULES_def)
    let ?T0 = "(Voltage g)[nat i := ?seg i]"
    let ?g' = "g\<lparr>Voltage := ?T0\<rparr>"
    have unfold: "voltage_lines g i = voltage_lines ?g' (i + 1)"
      using True inb by (subst voltage_lines.simps) (simp add: Let_def)
    have "\<exists>T. voltage_lines ?g' (i + 1) = Inr (?g'\<lparr>Voltage := T\<rparr>) \<and> length T = length (Voltage ?g')
     \<and> (\<forall>k. i + 1 \<le> k \<and> k < sint (voltageDivisions ?g') \<and> nat k < length (Voltage ?g') \<longrightarrow>
           T ! nat k = \<lparr>x1 = x1 (privateBoundary ?g'),
                        y1 = to_int16_t (sint (y1 (privateBoundary ?g')) + k * sint (voltageStepSize ?g')),
                        x2 = x2 (privateBoundary ?g'),
                        y2 = to_int16_t (sint (y1 (privateBoundary ?g')) + k * sint (voltageStepSize ?g'))\<rparr>)
     \<and> (\<forall>n<length (Voltage ?g'). \<not> (i + 1 \<le> int n \<and> int n < sint (voltageDivisions ?g')) \<longrightarrow> T ! n = Voltage ?g' ! n)"
      using "1.IH"[OF True refl inb] "1.prems" by simp
    then obtain T where T: "voltage_lines ?g' (i + 1) = Inr (g\<lparr>Voltage := T\<rparr>)" "length T = length (Voltage g)"
      "\<And>k. i + 1 \<le> k \<Longrightarrow> k < ?td \<Longrightarrow> nat k < length (Voltage g) \<Longrightarrow> T ! nat k = ?seg k"
      "\<And>n. n < length (Voltage g) \<Longrightarrow> \<not> (i + 1 \<le> int n \<and> int n < ?td) \<Longrightarrow> T ! n = ?T0 ! n"
      by auto
    have a: "T ! nat k = ?seg k" if "i \<le> k" "k < ?td" "nat k < length (Voltage g)" for k
    proof (cases "k = i")
      case True
      then have "T ! nat k = ?T0 ! nat i" using T(4)[of "nat i"] that inb by simp
      then show ?thesis using True that by simp
    next
      case False
      then show ?thesis using T(3)[of k] that by simp
    qed
    have b: "T ! n = Voltage g ! n" if "n < length (Voltage g)" "\<not> (i \<le> int n \<and> int n < ?td)" for n
    proof -
      have "int n \<noteq> i" using that(2) True by auto
      moreover have "0 \<le> i" using inb by simp
      ultimately have "n \<noteq> nat i" by auto
      moreover have "T ! n = ?T0 ! n" using T(4)[of n] that by auto
      ultimately show ?thesis by simp
    qed
    show ?thesis using unfold T(1,2) a b by (intro exI[of _ T]) auto
  qed
qed

lemma time_lines_overflow:
  "0 \<le> i \<Longrightarrow> i \<le> 20 \<Longrightarrow> 20 < sint (timeDivisions g) \<Longrightarrow> time_lines g i = Inl OutOfBounds"
proof (induction g i rule: time_lines.induct)
  case (1 g i)
  have lt: "i < sint (timeDivisions g)" using "1.prems" by simp
  show ?case
  proof (cases "i = 20")
    case True
    then show ?thesis using lt by (subst time_lines.simps) (simp add: MAX_GRATICULES_def Let_def)
  next
    case False
    then have inb: "0 \<le> i \<and> nat i < MAX_GRATICULES" using "1.prems" by (simp add: MAX_GRATICULES_def)
    have "time_lines g i = time_lines (g\<lparr>Time := (Time g)[nat i := \<lparr>x1 = to_int16_t (sint (x1 (privateBoundary g)) + i * sint (timeStepSize g)), y1 = y1 (privateBoundary g),
                                                 x2 = to_int16_t (sint (x1 (privateBoundary g)) + i * sint (timeStepSize g)), y2 = y2 (privateBoundary g)\<rparr>]\<rparr>) (i + 1)"
      using lt inb by (subst time_lines.simps) (simp add: Let_def)
    also have "\<dots> = Inl OutOfBounds"
      using "1.IH"[OF lt refl inb] "1.prems" False by simp
    finally show ?thesis .
  qed
qed

lemma voltage_lines_overflow:
  "0 \<le> i \<Longrightarrow> i \<le> 20 \<Longrightarrow> 20 < sint (voltageDivisions g) \<Longrightarrow> voltage_lines g i = Inl OutOfBounds"
proof (induction g i rule: voltage_lines.induct)
  case (1 g i)
  have lt: "i < sint (voltageDivisions g)" using "1.prems" by simp
  show ?case
  proof (cases "i = 20")
    case True
    then show ?thesis using lt by (subst voltage_lines.simps) (simp add: MAX_GRATICULES_def Let_def)
  next
    case False
    then have inb: "0 \<le> i \<and> nat i < MAX_GRATICULES" using "1.prems" by (simp add: MAX_GRATICULES_def)
    have "voltage_lines g i = voltage_lines (g\<lparr>Voltage := (Voltage g)[nat i := \<lparr>x1 = x1 (privateBoundary g), y1 = to_int16_t (sint (y1 (privateBoundary g)) + i * sint (voltageStepSize g)),
                                                       x2 = x2 (privateBoundary g), y2 = to_int16_t (sint (y1 (privateBoundary g)) + i * sint (voltageStepSize g))\<rparr>]\<rparr>) (i + 1)"
      using lt inb by (subst voltage_lines.simps) (simp add: Let_def)
    also have "\<dots> = Inl OutOfBounds"
      using "1.IH"[OF lt refl inb] "1.prems" False by simp
    finally show ?thesis .
  qed
qed

lemma sint_zero_iff: "sint (w :: 'a::len word) = 0 \<longleftrightarrow> w = 0"
  by (rule signed_eq_0_iff)

lemma setStepSize_Inr:
  "sint (timeDivisions g) \<noteq> 0 \<Longrightarrow> sint (voltageDivisions g) \<noteq> 0 \<Longrightarrow>
   setStepSize g =
     Inr (g\<lparr>timeStepSize := to_int16_t (sint (to_int16_t ((sint (x2 (privateBoundary g)) - sint (x1 (privateBoundary g))) + 1)) sdiv sint (timeDivisions g)),
           voltageStepSize := to_int16_t (sint (to_int16_t ((sint (y2 (privateBoundary g)) - sint (y1 (privateBoundary g))) + 1)) sdiv sint (voltageDivisions g))\<rparr>)"
  by (simp add: setStepSize_def Let_def)

lemma setStepSize_zero:
  "sint (timeDivisions g) = 0 \<or> sint (voltageDivisions g) = 0 \<Longrightarrow> setStepSize g = Inl DivisionByZero"
  by (auto simp: setStepSize_def Let_def)

lemma setLineSegments_ok:
  assumes "sint (timeDivisions g) \<le> 20" "sint (voltageDivisions g) \<le> 20"
  shows "\<exists>T V. setLineSegments g = Inr (g\<lparr>Time := T, Voltage := V\<rparr>)
     \<and> length T = length (Time g) \<and> length V = length (Voltage g)
     \<and> (\<forall>k. 0 \<le> k \<and> k < sint (timeDivisions g) \<and> nat k < length (Time g) \<longrightarrow>
           T ! nat k = \<lparr>x1 = to_int16_t (sint (x1 (privateBoundary g)) + k * sint (timeStepSize g)),
                        y1 = y1 (privateBoundary g),
                        x2 = to_int16_t (sint (x1 (privateBoundary g)) + k * sint (timeStepSize g)),
                        y2 = y2 (privateBoundary g)\<rparr>)
     \<and> (\<forall>n<length (Time g). \<not> (int n < sint (timeDivisions g)) \<longrightarrow> T ! n = Time g ! n)
     \<and> (\<forall>k. 0 \<le> k \<and> k < sint (voltageDivisions g) \<and> nat k < length (Voltage g) \<longrightarrow>
           V ! nat k = \<lparr>x1 = x1 (privateBoundary g),
                        y1 = to_int16_t (sint (y1 (privateBoundary g)) + k * sint (voltageStepSize g)),
                        x2 = x2 (privateBoundary g),
                        y2 = to_int16_t (sint (y1 (privateBoundary g)) + k * sint (voltageStepSize g))\<rparr>)
     \<and> (\<forall>n<length (Voltage g). \<not> (int n < sint (voltageDivisions g)) \<longrightarrow> V ! n = Voltage g ! n)"
proof -
  obtain T where T: "time_lines g 0 = Inr (g\<lparr>Time := T\<rparr>)" "length T = length (Time g)"
    "\<forall>k. 0 \<le> k \<and> k < sint (timeDivisions g) \<and> nat k < length (Time g) \<longrightarrow>
           T ! nat k = \<lparr>x1 = to_int16_t (sint (x1 (privateBoundary g)) + k * sint (timeStepSize g)),
                        y1 = y1 (privateBoundary g),
                        x2 = to_int16_t (sint (x1 (privateBoundary g)) + k * sint (timeStepSize g)),
                        y2 = y2 (privateBoundary g)\<rparr>"
    "\<forall>n<length (Time g). \<not> (0 \<le> int n \<and> int n < sint (timeDivisions g)) \<longrightarrow> T ! n = Time g ! n"
    using time_lines_ok[of 0 g] assms(1) by auto
  let ?g' = "g\<lparr>Time := T\<rparr>"
  obtain V where V: "voltage_lines ?g' 0 = Inr (?g'\<lparr>Voltage := V\<rparr>)" "length V = length (Voltage ?g')"
    "\<forall>k. 0 \<le> k \<and> k < sint (voltageDivisions ?g') \<and> nat k < length (Voltage ?g') \<longrightarrow>
           V ! nat k = \<lparr>x1 = x1 (privateBoundary ?g'),
                        y1 = to_int16_t (sint (y1 (privateBoundary ?g')) + k * sint (voltageStepSize ?g')),
                        x2 = x2 (privateBoundary ?g'),
                        y2 = to_int16_t (sint (y1 (privateBoundary ?g')) + k * sint (voltageStepSize ?g'))\<rparr>"
    "\<forall>n<length (Voltage ?g'). \<not> (0 \<le> int n \<and> int n < sint (voltageDivisions ?g')) \<longrightarrow> V ! n = Voltage ?g' ! n"
    using voltage_lines_ok[of 0 ?g'] assms(2) by auto
  have "setLineSegments g = Inr (g\<lparr>Time := T, Voltage := V\<rparr>)"
    by (simp add: setLineSegments_def T(1) V(1))
  then show ?thesis using T(2,3,4) V(2,3,4) by (intro exI[of _ T] exI[of _ V]) simp
qed

lemma setLineSegments_overflow:
  assumes "20 < sint (timeDivisions g) \<or> 20 < sint (voltageDivisions g)"
  shows "setLineSegments g = Inl OutOfBounds"
proof (cases "20 < sint (timeDivisions g)")
  case True
  then show ?thesis by (simp add: setLineSegments_def time_lines_overflow)
next
  case False
  then have v: "20 < sint (voltageDivisions g)" using assms by simp
  obtain T where T: "time_lines g 0 = Inr (g\<lparr>Time := T\<rparr>)"
    using time_lines_ok[of 0 g] False by auto
  have "voltage_lines (g\<lparr>Time := T\<rparr>) 0 = Inl OutOfBounds"
    using v by (intro voltage_lines_overflow) simp_all
  then show ?thesis by (simp add: setLineSegments_def T)
qed

lemma configure_completes:
  assumes "1 \<le> sint td" "sint td \<le> int MAX_GRATICULES" "1 \<le> sint vd" "sint vd \<le> int MAX_GRATICULES"
  shows "\<exists>g'. configure g b oc ot gc gt td vd xo yo = Inr g'"
proof -
  let ?g1 = "g\<lparr>privateBoundary := \<lparr>x1 = x1 b, y1 = y1 b, x2 = x2 b, y2 = y2 b\<rparr>,
                  originColor := oc, originThickness := ot, gridlineColor := gc,
                  gridlineThickness := gt, timeDivisions := td, voltageDivisions := vd,
                  xOriginIndex := xo, yOriginIndex := yo\<rparr>"
  have nz: "sint (timeDivisions ?g1) \<noteq> 0" "sint (voltageDivisions ?g1) \<noteq> 0" using assms by auto
  obtain g2 where g2: "setStepSize ?g1 = Inr g2" "timeDivisions g2 = td" "voltageDivisions g2 = vd"
    using setStepSize_Inr[OF nz] by simp
  obtain T V where TV: "setLineSegments g2 = Inr (g2\<lparr>Time := T, Voltage := V\<rparr>)"
    using setLineSegments_ok[of g2] assms g2(2,3) by (auto simp: MAX_GRATICULES_def)
  have "configure g b oc ot gc gt td vd xo yo = Inr (g2\<lparr>Time := T, Voltage := V\<rparr>)"
    by (simp add: configure_def Let_def g2(1) TV)
  then show ?thesis by blast
qed

lemma step_value:
  fixes span d :: int
  assumes "1 \<le> span" "span \<le> 32767" "1 \<le> d"
  shows "sint (to_int16_t (sint (to_int16_t span) sdiv d)) = span sdiv d"
    and "span sdiv d = span div d" and "0 \<le> span div d" and "span div d \<le> 32767"
proof -
  have s: "sint (to_int16_t span) = span" using assms by (intro sint16_of_int) auto
  show e: "span sdiv d = span div d" using assms by (intro sdiv_pos) auto
  show q0: "0 \<le> span div d" using assms by (simp add: pos_imp_zdiv_nonneg_iff)
  have "1 * (span div d) \<le> d * (span div d)" using assms q0 by (intro mult_right_mono) auto
  moreover have "d * (span div d) \<le> span"
    using mult_div_mod_eq[of d span] pos_mod_sign[of d span] assms(3) by linarith
  ultimately show q1: "span div d \<le> 32767" using assms by simp
  show "sint (to_int16_t (sint (to_int16_t span) sdiv d)) = span sdiv d"
    unfolding s e using q0 q1 by (intro sint16_of_int) auto
qed

lemma line_value:
  fixes lo hi :: int16_t and d i :: int
  assumes "sint lo \<le> sint hi" "sint hi - sint lo + 1 \<le> 32767" "1 \<le> d" "0 \<le> i" "i < d"
  shows "sint (to_int16_t (sint lo + i * ((sint hi - sint lo + 1) div d)))
           = sint lo + i * ((sint hi - sint lo + 1) div d)"
proof -
  let ?span = "sint hi - sint lo + 1"
  have "0 \<le> i * (?span div d) \<and> i * (?span div d) \<le> ?span - 1"
    using assms by (intro partial_steps_bound) auto
  then have "- 32768 \<le> sint lo + i * (?span div d)" "sint lo + i * (?span div d) \<le> 32767"
    using sint16_range[of lo] sint16_range[of hi] by auto
  then show ?thesis by (rule sint16_of_int)
qed

lemma uint_eq_sint_nonneg: "0 \<le> sint (w :: int8_t) \<Longrightarrow> uint w = sint w"
  using uint_sint[of w] sint_lt[of w] by (simp add: take_bit_eq_mod)

subsection \<open>Claims about the grid geometry\<close>

text \<open>
  Claim C4 (geometry), as amended: for every boundary with \<open>x2 \<ge> x1\<close> and \<open>y2 \<ge> y1\<close>
  whose inclusive spans are at most 32767, and division counts between 1 and
  \<^verbatim>\<open>MAX_GRATICULES\<close>, \<^verbatim>\<open>configure\<close> sets the step size of an axis to the inclusive
  span divided by the division count (truncating), and puts line \<open>i\<close> below the division
  count at boundary start plus \<open>i\<close> times the step size, over the full orthogonal
  extent; the entries of the arrays from the division count on are not written.
  The claim as stated, for every boundary and every positive division count, fails: an
  inclusive span of 32768 does not fit \<^verbatim>\<open>int16_t\<close> and gives the step size -32768,
  and 21 divisions write behind the arrays.
\<close>

theorem configure_grid_geometry:
  assumes bx: "sint (x1 b) \<le> sint (x2 b)" and "by": "sint (y1 b) \<le> sint (y2 b)"
    and sx: "sint (x2 b) - sint (x1 b) + 1 \<le> 32767" and sy: "sint (y2 b) - sint (y1 b) + 1 \<le> 32767"
    and td: "1 \<le> sint td" "sint td \<le> int MAX_GRATICULES"
    and vd: "1 \<le> sint vd" "sint vd \<le> int MAX_GRATICULES"
    and wf: "wf_Graticules g"
  shows "\<exists>g'. configure g b oc ot gc gt td vd xo yo = Inr g'
     \<and> sint (getStepSize g' TIME) = (sint (x2 b) - sint (x1 b) + 1) sdiv sint td
     \<and> sint (getStepSize g' VOLTAGE) = (sint (y2 b) - sint (y1 b) + 1) sdiv sint vd
     \<and> (\<forall>i<nat (sint td).
           sint (x1 (Time g' ! i)) = sint (x1 b) + int i * sint (getStepSize g' TIME)
           \<and> x2 (Time g' ! i) = x1 (Time g' ! i)
           \<and> y1 (Time g' ! i) = y1 b \<and> y2 (Time g' ! i) = y2 b)
     \<and> (\<forall>i<nat (sint vd).
           sint (y1 (Voltage g' ! i)) = sint (y1 b) + int i * sint (getStepSize g' VOLTAGE)
           \<and> y2 (Voltage g' ! i) = y1 (Voltage g' ! i)
           \<and> x1 (Voltage g' ! i) = x1 b \<and> x2 (Voltage g' ! i) = x2 b)
     \<and> (\<forall>i. nat (sint td) \<le> i \<and> i < MAX_GRATICULES \<longrightarrow> Time g' ! i = Time g ! i)
     \<and> (\<forall>i. nat (sint vd) \<le> i \<and> i < MAX_GRATICULES \<longrightarrow> Voltage g' ! i = Voltage g ! i)"
proof -
  let ?g1 = "g\<lparr>privateBoundary := \<lparr>x1 = x1 b, y1 = y1 b, x2 = x2 b, y2 = y2 b\<rparr>,
                  originColor := oc, originThickness := ot, gridlineColor := gc,
                  gridlineThickness := gt, timeDivisions := td, voltageDivisions := vd,
                  xOriginIndex := xo, yOriginIndex := yo\<rparr>"
  let ?sx = "sint (x2 b) - sint (x1 b) + 1"
  let ?sy = "sint (y2 b) - sint (y1 b) + 1"
  let ?ts = "to_int16_t (sint (to_int16_t ?sx) sdiv sint td) :: int16_t"
  let ?vs = "to_int16_t (sint (to_int16_t ?sy) sdiv sint vd) :: int16_t"
  let ?g2 = "?g1\<lparr>timeStepSize := ?ts, voltageStepSize := ?vs\<rparr>"
  have len: "length (Time g) = MAX_GRATICULES" "length (Voltage g) = MAX_GRATICULES"
    using wf by (simp_all add: wf_Graticules_def)
  have nz: "sint (timeDivisions ?g1) \<noteq> 0" "sint (voltageDivisions ?g1) \<noteq> 0"
    using td vd by auto
  have s2: "setStepSize ?g1 = Inr ?g2"
    using setStepSize_Inr[OF nz] by simp
  have sxp: "1 \<le> ?sx" using bx by simp
  have syp: "1 \<le> ?sy" using "by" by simp
  have ts: "sint ?ts = ?sx sdiv sint td" "?sx sdiv sint td = ?sx div sint td"
    using step_value[OF sxp sx td(1)] by auto
  have vs: "sint ?vs = ?sy sdiv sint vd" "?sy sdiv sint vd = ?sy div sint vd"
    using step_value[OF syp sy vd(1)] by auto
  obtain T V where TV: "setLineSegments ?g2 = Inr (?g2\<lparr>Time := T, Voltage := V\<rparr>)"
     and Tk: "\<And>k. 0 \<le> k \<Longrightarrow> k < sint td \<Longrightarrow> nat k < length (Time g) \<Longrightarrow>
           T ! nat k = \<lparr>x1 = to_int16_t (sint (x1 b) + k * sint ?ts),
                        y1 = y1 b,
                        x2 = to_int16_t (sint (x1 b) + k * sint ?ts),
                        y2 = y2 b\<rparr>"
     and Tn: "\<And>n. n < length (Time g) \<Longrightarrow> \<not> (int n < sint td) \<Longrightarrow> T ! n = Time g ! n"
     and Vk: "\<And>k. 0 \<le> k \<Longrightarrow> k < sint vd \<Longrightarrow> nat k < length (Voltage g) \<Longrightarrow>
           V ! nat k = \<lparr>x1 = x1 b,
                        y1 = to_int16_t (sint (y1 b) + k * sint ?vs),
                        x2 = x2 b,
                        y2 = to_int16_t (sint (y1 b) + k * sint ?vs)\<rparr>"
     and Vn: "\<And>n. n < length (Voltage g) \<Longrightarrow> \<not> (int n < sint vd) \<Longrightarrow> V ! n = Voltage g ! n"
    using setLineSegments_ok[of ?g2] td(2) vd(2) by (auto simp: MAX_GRATICULES_def)
  let ?g' = "?g2\<lparr>Time := T, Voltage := V\<rparr>"
  have c: "configure g b oc ot gc gt td vd xo yo = Inr ?g'"
    unfolding configure_def Let_def by (simp only: s2 sum.case TV)
  have st: "sint (getStepSize ?g' TIME) = ?sx sdiv sint td"
    using ts(1) by (simp add: getStepSize_def)
  have sv: "sint (getStepSize ?g' VOLTAGE) = ?sy sdiv sint vd"
    using vs(1) by (simp add: getStepSize_def)
  have tl: "sint (x1 (Time ?g' ! i)) = sint (x1 b) + int i * sint (getStepSize ?g' TIME)
           \<and> x2 (Time ?g' ! i) = x1 (Time ?g' ! i)
           \<and> y1 (Time ?g' ! i) = y1 b \<and> y2 (Time ?g' ! i) = y2 b" if "i < nat (sint td)" for i
  proof -
    have i: "0 \<le> int i" "int i < sint td" using that by auto
    have "nat (int i) < length (Time g)" using i td(2) len by simp
    then have "T ! i = \<lparr>x1 = to_int16_t (sint (x1 b) + int i * sint ?ts), y1 = y1 b,
                        x2 = to_int16_t (sint (x1 b) + int i * sint ?ts), y2 = y2 b\<rparr>"
      using Tk[OF i] by simp
    moreover have "sint (to_int16_t (sint (x1 b) + int i * (?sx div sint td)))
         = sint (x1 b) + int i * (?sx div sint td)"
      using line_value[OF bx sx td(1) i] .
    ultimately show ?thesis using ts by (simp add: getStepSize_def)
  qed
  have vl: "sint (y1 (Voltage ?g' ! i)) = sint (y1 b) + int i * sint (getStepSize ?g' VOLTAGE)
           \<and> y2 (Voltage ?g' ! i) = y1 (Voltage ?g' ! i)
           \<and> x1 (Voltage ?g' ! i) = x1 b \<and> x2 (Voltage ?g' ! i) = x2 b" if "i < nat (sint vd)" for i
  proof -
    have i: "0 \<le> int i" "int i < sint vd" using that by auto
    have "nat (int i) < length (Voltage g)" using i vd(2) len by simp
    then have "V ! i = \<lparr>x1 = x1 b, y1 = to_int16_t (sint (y1 b) + int i * sint ?vs),
                        x2 = x2 b, y2 = to_int16_t (sint (y1 b) + int i * sint ?vs)\<rparr>"
      using Vk[OF i] by simp
    moreover have "sint (to_int16_t (sint (y1 b) + int i * (?sy div sint vd)))
         = sint (y1 b) + int i * (?sy div sint vd)"
      using line_value[OF "by" sy vd(1) i] .
    ultimately show ?thesis using vs by (simp add: getStepSize_def)
  qed
  have tr: "Time ?g' ! i = Time g ! i" if "nat (sint td) \<le> i \<and> i < MAX_GRATICULES" for i
    using Tn[of i] that len by auto
  have vr: "Voltage ?g' ! i = Voltage g ! i" if "nat (sint vd) \<le> i \<and> i < MAX_GRATICULES" for i
    using Vn[of i] that len by auto
  show ?thesis
    using c st sv tl vl tr vr by (intro exI[of _ ?g']) blast
qed

theorem configure_grid_geometry_counterexample:
  "sint (x1 wide_boundary) \<le> sint (x2 wide_boundary)
   \<and> sint (y1 wide_boundary) \<le> sint (y2 wide_boundary)
   \<and> 0 < sint (1 :: int8_t)
   \<and> \<not> isl (configure new_Graticules wide_boundary 0 0 0 0 1 1 0 0)
   \<and> sint (getStepSize (projr (configure new_Graticules wide_boundary 0 0 0 0 1 1 0 0)) TIME) = - 32768
   \<and> (sint (x2 wide_boundary) - sint (x1 wide_boundary) + 1) sdiv sint (1 :: int8_t) = 32768
   \<and> 0 < sint (21 :: int8_t)
   \<and> configure new_Graticules screen_boundary 0 0 0 0 21 8 0 0 = Inl OutOfBounds"
  by code_simp

theorem configure_grid_geometry_witness:
  "sint (x1 screen_boundary) \<le> sint (x2 screen_boundary)
   \<and> sint (y1 screen_boundary) \<le> sint (y2 screen_boundary)
   \<and> sint (x2 screen_boundary) - sint (x1 screen_boundary) + 1 \<le> 32767
   \<and> sint (y2 screen_boundary) - sint (y1 screen_boundary) + 1 \<le> 32767
   \<and> 1 \<le> sint (10 :: int8_t) \<and> sint (10 :: int8_t) \<le> int MAX_GRATICULES
   \<and> 1 \<le> sint (8 :: int8_t) \<and> sint (8 :: int8_t) \<le> int MAX_GRATICULES
   \<and> wf_Graticules new_Graticules
   \<and> (\<exists>g'. configure new_Graticules screen_boundary 0 2 0 1 10 8 5 4 = Inr g'
         \<and> sint (getStepSize g' TIME) = 48
         \<and> sint (x1 (Time g' ! 0)) = 0 \<and> x2 (Time g' ! 0) = x1 (Time g' ! 0)
         \<and> y1 (Time g' ! 0) = 0 \<and> y2 (Time g' ! 0) = 383
         \<and> sint (x1 (Time g' ! 9)) = 432 \<and> x2 (Time g' ! 9) = x1 (Time g' ! 9)
         \<and> y1 (Time g' ! 9) = 0 \<and> y2 (Time g' ! 9) = 383
         \<and> Time g' ! 10 = zero_segment)"
proof -
  have h: "sint (x1 screen_boundary) \<le> sint (x2 screen_boundary)"
      "sint (y1 screen_boundary) \<le> sint (y2 screen_boundary)"
      "sint (x2 screen_boundary) - sint (x1 screen_boundary) + 1 \<le> 32767"
      "sint (y2 screen_boundary) - sint (y1 screen_boundary) + 1 \<le> 32767"
      "1 \<le> sint (10 :: int8_t)" "sint (10 :: int8_t) \<le> int MAX_GRATICULES"
      "1 \<le> sint (8 :: int8_t)" "sint (8 :: int8_t) \<le> int MAX_GRATICULES"
      "wf_Graticules new_Graticules"
    by (simp_all add: screen_boundary_def MAX_GRATICULES_def wf_Graticules_def new_Graticules_def)
  have v: "sint (x1 screen_boundary) = 0" "sint (x2 screen_boundary) = 479"
      "y1 screen_boundary = 0" "y2 screen_boundary = 383" "sint (10 :: int8_t) = 10"
      "Time new_Graticules ! 10 = zero_segment"
    by (simp_all add: screen_boundary_def new_Graticules_def MAX_GRATICULES_def)
  have q: "(480::int) sdiv 10 = 48" by (simp add: signed_divide_int_def)
  from configure_grid_geometry[OF h, of 0 2 0 1 5 4]
  obtain g' where g': "configure new_Graticules screen_boundary 0 2 0 1 10 8 5 4 = Inr g'"
     "sint (getStepSize g' TIME) = (sint (x2 screen_boundary) - sint (x1 screen_boundary) + 1) sdiv sint (10 :: int8_t)"
     "\<forall>i<nat (sint (10 :: int8_t)).
           sint (x1 (Time g' ! i)) = sint (x1 screen_boundary) + int i * sint (getStepSize g' TIME)
           \<and> x2 (Time g' ! i) = x1 (Time g' ! i)
           \<and> y1 (Time g' ! i) = y1 screen_boundary \<and> y2 (Time g' ! i) = y2 screen_boundary"
     "\<forall>i. nat (sint (10 :: int8_t)) \<le> i \<and> i < MAX_GRATICULES \<longrightarrow> Time g' ! i = Time new_Graticules ! i"
    by blast
  have s: "sint (getStepSize g' TIME) = 48" using g'(2) by (simp add: v q)
  have l0: "sint (x1 (Time g' ! 0)) = 0 \<and> x2 (Time g' ! 0) = x1 (Time g' ! 0)
         \<and> y1 (Time g' ! 0) = 0 \<and> y2 (Time g' ! 0) = 383"
    using g'(3)[rule_format, of 0] by (simp add: v s)
  have l9: "sint (x1 (Time g' ! 9)) = 432 \<and> x2 (Time g' ! 9) = x1 (Time g' ! 9)
         \<and> y1 (Time g' ! 9) = 0 \<and> y2 (Time g' ! 9) = 383"
    using g'(3)[rule_format, of 9] by (simp add: v s)
  have l10: "Time g' ! 10 = zero_segment"
    using g'(4)[rule_format, of 10] by (simp add: v MAX_GRATICULES_def)
  show ?thesis using h g'(1) s l0 l9 l10 by blast
qed

text \<open>
  Claim C9 (safety): with both division counts between 1 and \<^verbatim>\<open>MAX_GRATICULES\<close>,
  \<^verbatim>\<open>configure\<close> completes: no division by zero, every write inside the arrays. The
  code checks neither condition: a zero count divides by zero, and a count above
  \<^verbatim>\<open>MAX_GRATICULES\<close> writes outside the arrays.
\<close>

theorem configure_safe_in_range:
  "(1 \<le> sint td \<and> sint td \<le> int MAX_GRATICULES \<and> 1 \<le> sint vd \<and> sint vd \<le> int MAX_GRATICULES
      \<longrightarrow> (\<exists>g'. configure g b oc ot gc gt td vd xo yo = Inr g' \<and> wf_Graticules g' = wf_Graticules g))
   \<and> (td = 0 \<or> vd = 0 \<longrightarrow> configure g b oc ot gc gt td vd xo yo = Inl DivisionByZero)
   \<and> (td \<noteq> 0 \<and> vd \<noteq> 0 \<and> (int MAX_GRATICULES < sint td \<or> int MAX_GRATICULES < sint vd)
      \<longrightarrow> configure g b oc ot gc gt td vd xo yo = Inl OutOfBounds)"
proof (intro conjI impI)
  let ?g1 = "g\<lparr>privateBoundary := \<lparr>x1 = x1 b, y1 = y1 b, x2 = x2 b, y2 = y2 b\<rparr>,
                  originColor := oc, originThickness := ot, gridlineColor := gc,
                  gridlineThickness := gt, timeDivisions := td, voltageDivisions := vd,
                  xOriginIndex := xo, yOriginIndex := yo\<rparr>"
  {
    assume a: "1 \<le> sint td \<and> sint td \<le> int MAX_GRATICULES \<and> 1 \<le> sint vd \<and> sint vd \<le> int MAX_GRATICULES"
    then have nz: "sint (timeDivisions ?g1) \<noteq> 0" "sint (voltageDivisions ?g1) \<noteq> 0" by auto
    obtain g2 where g2: "setStepSize ?g1 = Inr g2" "timeDivisions g2 = td" "voltageDivisions g2 = vd"
        "Time g2 = Time g" "Voltage g2 = Voltage g"
      using setStepSize_Inr[OF nz] by simp
    obtain T V where TV: "setLineSegments g2 = Inr (g2\<lparr>Time := T, Voltage := V\<rparr>)"
        "length T = length (Time g2)" "length V = length (Voltage g2)"
      using setLineSegments_ok[of g2] a g2(2,3) by (auto simp: MAX_GRATICULES_def)
    have "configure g b oc ot gc gt td vd xo yo = Inr (g2\<lparr>Time := T, Voltage := V\<rparr>)"
      by (simp add: configure_def Let_def g2(1) TV(1))
    moreover have "wf_Graticules (g2\<lparr>Time := T, Voltage := V\<rparr>) = wf_Graticules g"
      using TV(2,3) g2(4,5) by (simp add: wf_Graticules_def)
    ultimately show "\<exists>g'. configure g b oc ot gc gt td vd xo yo = Inr g' \<and> wf_Graticules g' = wf_Graticules g"
      by blast
  }
  {
    assume "td = 0 \<or> vd = 0"
    then have "sint (timeDivisions ?g1) = 0 \<or> sint (voltageDivisions ?g1) = 0" by auto
    then have "setStepSize ?g1 = Inl DivisionByZero" by (rule setStepSize_zero)
    then show "configure g b oc ot gc gt td vd xo yo = Inl DivisionByZero"
      by (simp add: configure_def Let_def)
  }
  {
    assume a: "td \<noteq> 0 \<and> vd \<noteq> 0 \<and> (int MAX_GRATICULES < sint td \<or> int MAX_GRATICULES < sint vd)"
    then have nz: "sint (timeDivisions ?g1) \<noteq> 0" "sint (voltageDivisions ?g1) \<noteq> 0"
      by (simp_all add: sint_zero_iff)
    obtain g2 where g2: "setStepSize ?g1 = Inr g2" "timeDivisions g2 = td" "voltageDivisions g2 = vd"
      using setStepSize_Inr[OF nz] by simp
    have "setLineSegments g2 = Inl OutOfBounds"
      using a g2(2,3) by (intro setLineSegments_overflow) (simp add: MAX_GRATICULES_def)
    then show "configure g b oc ot gc gt td vd xo yo = Inl OutOfBounds"
      by (simp add: configure_def Let_def g2(1))
  }
qed

theorem configure_safe_in_range_witness:
  "1 \<le> sint (10 :: int8_t) \<and> sint (10 :: int8_t) \<le> int MAX_GRATICULES
   \<and> 1 \<le> sint (8 :: int8_t) \<and> sint (8 :: int8_t) \<le> int MAX_GRATICULES
   \<and> (\<exists>g'. configure new_Graticules screen_boundary 0 2 0 1 10 8 5 4 = Inr g'
          \<and> wf_Graticules g' = wf_Graticules new_Graticules)
   \<and> configure new_Graticules screen_boundary 0 2 0 1 0 8 5 4 = Inl DivisionByZero
   \<and> (21 :: int8_t) \<noteq> 0 \<and> (8 :: int8_t) \<noteq> 0 \<and> int MAX_GRATICULES < sint (21 :: int8_t)
   \<and> configure new_Graticules screen_boundary 0 2 0 1 21 8 5 4 = Inl OutOfBounds"
  using configure_safe_in_range[of 10 8 new_Graticules screen_boundary 0 2 0 1 5 4]
    configure_safe_in_range[of 0 8 new_Graticules screen_boundary 0 2 0 1 5 4]
    configure_safe_in_range[of 21 8 new_Graticules screen_boundary 0 2 0 1 5 4]
  by (simp add: MAX_GRATICULES_def)

text \<open>
  Claim C6 (index check), as amended: for every instance whose division count of the
  axis is between 0 and \<^verbatim>\<open>MAX_GRATICULES\<close>, \<^verbatim>\<open>getLineSegment\<close> returns the all-zero
  segment when the index is negative or not below the division count, and the stored
  segment otherwise, without fault. For a negative division count the claim as stated
  fails: \<^verbatim>\<open>isValidIndex\<close> reads the count as \<^verbatim>\<open>uint8_t\<close>, so after a second
  \<^verbatim>\<open>configure\<close> with the count -1 index 1 returns the segment of the first
  configuration and index 25 reads outside the array.
\<close>

theorem getLineSegment_in_range:
  assumes "0 \<le> sint (getDivisions g ty)" "sint (getDivisions g ty) \<le> int MAX_GRATICULES"
  shows "getLineSegment g idx ty =
     Inr (if sint idx < 0 \<or> sint (getDivisions g ty) \<le> sint idx then zero_segment
          else (case ty of TIME \<Rightarrow> Time g ! nat (sint idx) | VOLTAGE \<Rightarrow> Voltage g ! nat (sint idx)))"
proof (cases ty)
  case TIME
  have u: "uint (timeDivisions g) = sint (timeDivisions g)"
    using assms(1) TIME by (intro uint_eq_sint_nonneg) (simp add: getDivisions_def)
  show ?thesis
    using assms TIME u
    by (auto simp: getLineSegment_def isValidIndex_def getDivisions_def Let_def MAX_GRATICULES_def)
next
  case VOLTAGE
  have u: "uint (voltageDivisions g) = sint (voltageDivisions g)"
    using assms(1) VOLTAGE by (intro uint_eq_sint_nonneg) (simp add: getDivisions_def)
  show ?thesis
    using assms VOLTAGE u
    by (auto simp: getLineSegment_def isValidIndex_def getDivisions_def Let_def MAX_GRATICULES_def)
qed

theorem getLineSegment_in_range_counterexample:
  "\<not> isl (configure new_Graticules screen_boundary 0 2 0 1 10 8 5 4)
   \<and> \<not> isl (configure configured_once screen_boundary 0 2 0 1 (- 1) 8 5 4)
   \<and> sint (getDivisions configured_twice TIME) = - 1
   \<and> sint (getDivisions configured_twice TIME) \<le> sint (1 :: int8_t)
   \<and> getLineSegment configured_twice 1 TIME = Inr \<lparr>x1 = 48, y1 = 0, x2 = 48, y2 = 383\<rparr>
   \<and> getLineSegment configured_twice 1 TIME \<noteq> Inr zero_segment
   \<and> sint (getDivisions configured_twice TIME) \<le> sint (25 :: int8_t)
   \<and> getLineSegment configured_twice 25 TIME = Inl OutOfBounds"
  by code_simp

theorem getLineSegment_in_range_witness:
  "0 \<le> sint (getDivisions configured_once TIME)
   \<and> sint (getDivisions configured_once TIME) \<le> int MAX_GRATICULES
   \<and> getLineSegment configured_once 9 TIME = Inr \<lparr>x1 = 432, y1 = 0, x2 = 432, y2 = 383\<rparr>
   \<and> getLineSegment configured_once 10 TIME = Inr zero_segment
   \<and> getLineSegment configured_once (- 1) TIME = Inr zero_segment"
proof -
  have d: "sint (getDivisions configured_once TIME) = 10" by code_simp
  have h: "0 \<le> sint (getDivisions configured_once TIME)"
      "sint (getDivisions configured_once TIME) \<le> int MAX_GRATICULES"
    by (simp_all add: d MAX_GRATICULES_def)
  have t9: "Time configured_once ! 9 = \<lparr>x1 = 432, y1 = 0, x2 = 432, y2 = 383\<rparr>" by code_simp
  show ?thesis
    using h getLineSegment_in_range[OF h, of 9] getLineSegment_in_range[OF h, of 10]
      getLineSegment_in_range[OF h, of "- 1"]
    by (simp add: d t9)
qed


section \<open>Properties of the state machines\<close>

lemma evolves_refl: "evolves w w"
  by (simp add: evolves_def)

lemma evolves_trans: "evolves w w1 \<Longrightarrow> evolves w1 w2 \<Longrightarrow> evolves w w2"
  unfolding evolves_def by (metis WidgetObject.inject option.inject)

lemma evolves_update:
  assumes "widgets w p = Some (GraticulesWidget g)"
  shows "evolves w (w\<lparr>widgets := (widgets w)(p \<mapsto> GraticulesWidget g')\<rparr>)"
  using assms by (auto simp: evolves_def)

lemma matched_evolves: "evolves w w' \<Longrightarrow> matched w' e = matched w e"
  by (simp add: evolves_def matched_def)

lemma graph_ready_evolves:
  assumes "evolves w w'" "graph_ready w e"
  shows "graph_ready w' e"
proof -
  obtain a where a: "attributes w (val e) = Some a" using assms(2)
    by (auto simp: graph_ready_def split: option.splits)
  obtain g where g: "widgets w (getWidget (pool w) (key e)) = Some (GraticulesWidget g)"
    using assms(2) a by (auto simp: graph_ready_def split: option.splits WidgetObject.splits)
  have "\<exists>g'. widgets w' (getWidget (pool w) (key e)) = Some (GraticulesWidget g')"
    using assms(1) g unfolding evolves_def by (metis)
  then obtain g' where g': "widgets w' (getWidget (pool w') (key e)) = Some (GraticulesWidget g')"
    using assms(1) by (auto simp: evolves_def)
  have "attributes w' (val e) = Some a" using assms(1) a by (simp add: evolves_def)
  then show ?thesis using assms(2) a g g' by (simp add: graph_ready_def)
qed

lemma setAttribute_loop_result:
  "list_all (\<lambda>e. key e \<noteq> key_of GRAPH \<or> graph_ready w e) (takeWhile (matched w) es)
   \<Longrightarrow> \<exists>w'. setAttribute_loop singleton es w = Inr (list_all (matched w) es, w') \<and> evolves w w'
          \<and> (list_all (\<lambda>e. key e \<noteq> key_of GRAPH) (takeWhile (matched w) es) \<longrightarrow> w' = w)"
proof (induction es arbitrary: w)
  case Nil
  then show ?case by (simp add: evolves_refl)
next
  case (Cons e es)
  let ?p = "getWidget (pool w) (key e)"
  show ?case
  proof (cases "matched w e")
    case False
    then show ?thesis by (auto simp: matched_def Let_def evolves_refl)
  next
    case m: True
    then have nn: "val e \<noteq> 0" "?p \<noteq> 0" by (simp_all add: matched_def)
    have rest: "list_all (\<lambda>e. key e \<noteq> key_of GRAPH \<or> graph_ready w e) (takeWhile (matched w) es)"
      using Cons.prems m by simp
    show ?thesis
    proof (cases "key e = key_of GRAPH")
      case False
      obtain w' where w': "setAttribute_loop singleton es w = Inr (list_all (matched w) es, w')"
          "evolves w w'" "list_all (\<lambda>e. key e \<noteq> key_of GRAPH) (takeWhile (matched w) es) \<longrightarrow> w' = w"
        using Cons.IH[OF rest] by blast
      have "setAttribute_loop singleton (e # es) w = setAttribute_loop singleton es w"
        using nn False by (simp add: Let_def)
      then show ?thesis using w' m False by auto
    next
      case True
      have rdy: "graph_ready w e" using Cons.prems True m by simp
      obtain a where a: "attributes w (val e) = Some a"
          and d: "1 \<le> sint (xDivisionQty (data a))" "sint (xDivisionQty (data a)) \<le> int MAX_GRATICULES"
                 "1 \<le> sint (yDivisionQty (data a))" "sint (yDivisionQty (data a)) \<le> int MAX_GRATICULES"
        using rdy by (auto simp: graph_ready_def split: option.splits)
      obtain g where g: "widgets w ?p = Some (GraticulesWidget g)"
        using rdy a by (auto simp: graph_ready_def split: option.splits WidgetObject.splits)
      obtain g' where g': "configure g (boundary (geometry a))
                                   (Graph.originColor (data a))
                                   (Graph.originThickness (data a))
                                   (Graph.gridlineColor (data a))
                                   (Graph.gridlineThickness (data a))
                                   (xDivisionQty (data a))
                                   (yDivisionQty (data a))
                                   (Graph.xOriginIndex (data a))
                                   (Graph.yOriginIndex (data a)) = Inr g'"
        using configure_completes[OF d] by blast
      let ?w1 = "w\<lparr>widgets := (widgets w)(?p \<mapsto> GraticulesWidget g')\<rparr>"
      have ev1: "evolves w ?w1" using g by (rule evolves_update)
      have unfold: "setAttribute_loop singleton (e # es) w = setAttribute_loop singleton es ?w1"
        using nn True a g g' by (simp add: Let_def)
      have same: "matched ?w1 = matched w"
        using matched_evolves[OF ev1] by (simp add: fun_eq_iff)
      have rest1: "list_all (\<lambda>e. key e \<noteq> key_of GRAPH \<or> graph_ready ?w1 e) (takeWhile (matched ?w1) es)"
        unfolding same using rest graph_ready_evolves[OF ev1] by (auto simp: list_all_iff)
      obtain w' where w': "setAttribute_loop singleton es ?w1 = Inr (list_all (matched ?w1) es, w')"
          "evolves ?w1 w'"
        using Cons.IH[OF rest1] by blast
      have "list_all (matched w) (e # es) = list_all (matched w) es" using m by simp
      then have "setAttribute_loop singleton (e # es) w = Inr (list_all (matched w) (e # es), w')"
        using unfold w'(1) same by simp
      moreover have "evolves w w'" using ev1 w'(2) by (rule evolves_trans)
      ultimately show ?thesis using True m by auto
    qed
  qed
qed

lemma setAttribute_loop_partial:
  "setAttribute_loop p es w = Inr (finished, w')
   \<Longrightarrow> finished = list_all (matched w) es \<and> evolves w w'"
proof (induction es arbitrary: w)
  case Nil
  then show ?case by (auto simp: evolves_refl)
next
  case (Cons e es)
  let ?p = "getWidget (pool w) (key e)"
  have np: "p \<noteq> nullptr" using Cons.prems by (auto split: if_splits)
  show ?case
  proof (cases "matched w e")
    case False
    then show ?thesis using Cons.prems np by (auto simp: matched_def Let_def evolves_refl)
  next
    case m: True
    then have nn: "val e \<noteq> 0" "?p \<noteq> 0" by (simp_all add: matched_def)
    show ?thesis
    proof (cases "key e = key_of GRAPH")
      case False
      have "setAttribute_loop p (e # es) w = setAttribute_loop p es w"
        using nn False np by (simp add: Let_def)
      then show ?thesis using Cons.IH[of w] Cons.prems m by simp
    next
      case True
      obtain a g g' where a: "attributes w (val e) = Some a"
          and g: "widgets w ?p = Some (GraticulesWidget g)"
          and unfold: "setAttribute_loop p es (w\<lparr>widgets := (widgets w)(?p \<mapsto> GraticulesWidget g')\<rparr>)
                         = Inr (finished, w')"
        using Cons.prems nn True np
        by (auto simp: Let_def split: option.splits WidgetObject.splits sum.splits)
      let ?w1 = "w\<lparr>widgets := (widgets w)(?p \<mapsto> GraticulesWidget g')\<rparr>"
      have ev1: "evolves w ?w1" using g by (rule evolves_update)
      have same: "matched ?w1 = matched w"
        using matched_evolves[OF ev1] by (simp add: fun_eq_iff)
      have "finished = list_all (matched ?w1) es \<and> evolves ?w1 w'"
        using Cons.IH[OF unfold] .
      then show ?thesis using same m ev1 evolves_trans by auto
    qed
  qed
qed

lemma setWidgets_from_services_set_fault:
  assumes "WidgetBuilder.state b = BuilderState.SERVICES_SET"
    and "setAttribute (b\<lparr>WidgetBuilder.state := BuilderState.BUILDING\<rparr>, w) = Inl f"
  shows "setWidgets (b, w) = Inl f"
proof -
  have "setWidgets (b, w) = setWidgets (b\<lparr>WidgetBuilder.state := BuilderState.BUILDING\<rparr>, w)"
    using assms(1) by (subst setWidgets.simps) simp
  also have "\<dots> = Inl f"
    using assms(2) by (subst setWidgets.simps) simp
  finally show ?thesis .
qed

lemma setWidgets_from_services_set:
  assumes "WidgetBuilder.state b = BuilderState.SERVICES_SET"
    and "setAttribute (b\<lparr>WidgetBuilder.state := BuilderState.BUILDING\<rparr>, w) = Inr (b', w')"
  shows "setWidgets (b, w) = Inr (b', w')"
proof -
  have s: "WidgetBuilder.state b' = BuilderState.COMPLETE \<or> WidgetBuilder.state b' = BuilderState.ERROR_BUILDING"
    using assms(2) by (auto simp: setAttribute_def split: if_splits sum.splits prod.splits)
  have "setWidgets (b, w) = setWidgets (b\<lparr>WidgetBuilder.state := BuilderState.BUILDING\<rparr>, w)"
    using assms(1) by (subst setWidgets.simps) simp
  also have "\<dots> = setWidgets (b', w')"
    using assms(2) by (subst setWidgets.simps) simp
  also have "\<dots> = Inr (b', w')"
    using s by (subst setWidgets.simps) auto
  finally show ?thesis .
qed

subsection \<open>Claims about the state machines\<close>

text \<open>
  Claim C8 (build loop), as amended. Run from \<^verbatim>\<open>SERVICES_SET\<close>, the build loop of the
  \<^verbatim>\<open>WidgetBuilder\<close> goes through the entries of the registry in table order, up to the
  first entry whose attribute record or pool instance (looked up by the type of the
  entry) is missing (null). If there is such an entry the builder ends in
  \<^verbatim>\<open>ERROR_BUILDING\<close>, and in \<^verbatim>\<open>COMPLETE\<close> if every entry has both. Entries of a type
  other than the graph type are skipped without error and without effect: the run changes
  nothing but the contents of \<^verbatim>\<open>Graticules\<close> instances, and nothing at all when no
  entry reached has the graph type. All this holds when the builder holds both services,
  as every builder in \<^verbatim>\<open>SERVICES_SET\<close> does, and every entry of the graph type that
  the loop reaches can be configured (\<open>graphs_ready\<close>: its record is there, both
  division counts are between 1 and \<^verbatim>\<open>MAX_GRATICULES\<close>, its instance is a
  \<^verbatim>\<open>Graticules\<close>). Without that condition the final state is still the one described
  whenever the run returns at all.
  The claim as stated fails: a registry whose only entry is a graph with its record, its
  instance and no horizontal division has both pointers for every entry, and the run ends
  neither in \<^verbatim>\<open>COMPLETE\<close> nor in \<^verbatim>\<open>ERROR_BUILDING\<close> but in the division by zero of
  \<^verbatim>\<open>Graticules::setStepSize\<close>.
\<close>

theorem build_loop_outcome:
  "(WidgetBuilder.state b = BuilderState.SERVICES_SET
      \<and> WidgetBuilder.widgetRegistry b = singleton \<and> WidgetBuilder.widgetPool b = singleton
      \<and> graphs_ready w
    \<longrightarrow> (\<exists>w'. setWidgets (b, w) =
                 Inr (b\<lparr>WidgetBuilder.state :=
                          (if list_all (matched w) (entries (registry w)) then BuilderState.COMPLETE
                           else BuilderState.ERROR_BUILDING)\<rparr>, w')
               \<and> evolves w w'
               \<and> (list_all (\<lambda>e. key e \<noteq> key_of GRAPH) (reached w) \<longrightarrow> w' = w)))
   \<and> (WidgetBuilder.state b = BuilderState.SERVICES_SET \<and> setWidgets (b, w) = Inr (b1, w1)
      \<longrightarrow> b1 = b\<lparr>WidgetBuilder.state :=
                    (if list_all (matched w) (entries (registry w)) then BuilderState.COMPLETE
                     else BuilderState.ERROR_BUILDING)\<rparr>
          \<and> evolves w w1)"
proof (intro conjI impI; (elim conjE)?)
  let ?es = "entries (registry w)"
  let ?b' = "b\<lparr>WidgetBuilder.state :=
                     (if list_all (matched w) ?es then BuilderState.COMPLETE
                      else BuilderState.ERROR_BUILDING)\<rparr>"
  {
    assume st: "WidgetBuilder.state b = BuilderState.SERVICES_SET"
      and reg: "WidgetBuilder.widgetRegistry b = singleton"
      and pl: "WidgetBuilder.widgetPool b = singleton"
      and rdy: "graphs_ready w"
    obtain w' where w': "setAttribute_loop singleton ?es w = Inr (list_all (matched w) ?es, w')"
        "evolves w w'" "list_all (\<lambda>e. key e \<noteq> key_of GRAPH) (reached w) \<longrightarrow> w' = w"
      using setAttribute_loop_result[of w ?es] rdy unfolding graphs_ready_def reached_def by blast
    have "setAttribute (b\<lparr>WidgetBuilder.state := BuilderState.BUILDING\<rparr>, w) = Inr (?b', w')"
      using reg pl w'(1) by (simp add: setAttribute_def)
    then have "setWidgets (b, w) = Inr (?b', w')"
      using st by (intro setWidgets_from_services_set)
    then show "\<exists>w'. setWidgets (b, w) = Inr (?b', w') \<and> evolves w w'
                 \<and> (list_all (\<lambda>e. key e \<noteq> key_of GRAPH) (reached w) \<longrightarrow> w' = w)"
      using w'(2,3) by blast
  }
  {
    assume st: "WidgetBuilder.state b = BuilderState.SERVICES_SET"
      and run: "setWidgets (b, w) = Inr (b1, w1)"
    let ?b0 = "b\<lparr>WidgetBuilder.state := BuilderState.BUILDING\<rparr>"
    have nf: "setAttribute (?b0, w) \<noteq> Inl f" for f
      using setWidgets_from_services_set_fault[OF st, of w f] run by auto
    then obtain b2 w2 where a: "setAttribute (?b0, w) = Inr (b2, w2)"
      by (cases "setAttribute (?b0, w)") auto
    have "setWidgets (b, w) = Inr (b2, w2)"
      using st a by (rule setWidgets_from_services_set)
    then have eq: "b2 = b1" "w2 = w1" using run by simp_all
    obtain finished where l: "setAttribute_loop (WidgetBuilder.widgetPool b) ?es w = Inr (finished, w1)"
        and b1: "b1 = b\<lparr>WidgetBuilder.state := (if finished then BuilderState.COMPLETE
                                     else BuilderState.ERROR_BUILDING)\<rparr>"
      using a unfolding eq
      by (auto simp: setAttribute_def split: if_splits sum.splits prod.splits)
    have "finished = list_all (matched w) ?es \<and> evolves w w1"
      using l by (rule setAttribute_loop_partial)
    then show "b1 = ?b'" and "evolves w w1" using b1 by simp_all
  }
qed

theorem build_loop_outcome_counterexample:
  "WidgetBuilder.state (setServices new_WidgetBuilder singleton singleton) = BuilderState.SERVICES_SET
   \<and> list_all (matched zero_division_world) (entries (registry zero_division_world))
   \<and> length (entries (registry zero_division_world)) = 1
   \<and> setWidgets (setServices new_WidgetBuilder singleton singleton, zero_division_world)
       = Inl DivisionByZero"
proof -
  let ?b = "setServices new_WidgetBuilder singleton singleton"
  have b: "?b = \<lparr>WidgetBuilder.state = BuilderState.SERVICES_SET,
                    widgetRegistry = singleton, widgetPool = singleton\<rparr>"
    by (simp add: setServices_def new_WidgetBuilder_def)
  have m: "list_all (matched zero_division_world) (entries (registry zero_division_world))"
    by code_simp
  have n: "length (entries (registry zero_division_world)) = 1"
    by code_simp
  have l: "isl (setAttribute_loop singleton (entries (registry zero_division_world)) zero_division_world)
           \<and> projl (setAttribute_loop singleton (entries (registry zero_division_world)) zero_division_world)
               = DivisionByZero"
    by code_simp
  then have "setAttribute_loop singleton (entries (registry zero_division_world)) zero_division_world
               = Inl DivisionByZero"
    by (cases "setAttribute_loop singleton (entries (registry zero_division_world)) zero_division_world") auto
  then have "setAttribute (?b\<lparr>WidgetBuilder.state := BuilderState.BUILDING\<rparr>, zero_division_world)
               = Inl DivisionByZero"
    by (simp add: setAttribute_def b)
  then have "setWidgets (?b, zero_division_world) = Inl DivisionByZero"
    by (intro setWidgets_from_services_set_fault) (simp add: b)
  then show ?thesis using m n by (simp add: b)
qed

theorem build_loop_outcome_witness:
  "WidgetBuilder.state (setServices new_WidgetBuilder singleton singleton) = BuilderState.SERVICES_SET
   \<and> WidgetBuilder.widgetRegistry (setServices new_WidgetBuilder singleton singleton) = singleton
   \<and> WidgetBuilder.widgetPool (setServices new_WidgetBuilder singleton singleton) = singleton
   \<and> graphs_ready demo_world \<and> graphs_ready unmatched_world \<and> graphs_ready unreached_world
   \<and> list_all (matched demo_world) (entries (registry demo_world))
   \<and> \<not> list_all (matched unmatched_world) (entries (registry unmatched_world))
   \<and> \<not> list_all (matched unreached_world) (entries (registry unreached_world))
   \<and> list_all (\<lambda>e. key e \<noteq> key_of GRAPH) (reached unreached_world)
   \<and> (\<exists>w'. setWidgets (setServices new_WidgetBuilder singleton singleton, demo_world) =
              Inr (\<lparr>WidgetBuilder.state = BuilderState.COMPLETE,
                    widgetRegistry = singleton, widgetPool = singleton\<rparr>, w')
            \<and> evolves demo_world w')
   \<and> (\<exists>w'. setWidgets (setServices new_WidgetBuilder singleton singleton, unmatched_world) =
              Inr (\<lparr>WidgetBuilder.state = BuilderState.ERROR_BUILDING,
                    widgetRegistry = singleton, widgetPool = singleton\<rparr>, w')
            \<and> evolves unmatched_world w')
   \<and> setWidgets (setServices new_WidgetBuilder singleton singleton, unreached_world) =
        Inr (\<lparr>WidgetBuilder.state = BuilderState.ERROR_BUILDING,
              widgetRegistry = singleton, widgetPool = singleton\<rparr>, unreached_world)"
proof -
  let ?b = "setServices new_WidgetBuilder singleton singleton"
  have b: "?b = \<lparr>WidgetBuilder.state = BuilderState.SERVICES_SET,
                    widgetRegistry = singleton, widgetPool = singleton\<rparr>"
    by (simp add: setServices_def new_WidgetBuilder_def)
  have h: "WidgetBuilder.state ?b = BuilderState.SERVICES_SET"
      "WidgetBuilder.widgetRegistry ?b = singleton" "WidgetBuilder.widgetPool ?b = singleton"
    by (simp_all add: b)
  have r1: "graphs_ready demo_world" by code_simp
  have r2: "graphs_ready unmatched_world" by code_simp
  have r3: "graphs_ready unreached_world" by code_simp
  have m1: "list_all (matched demo_world) (entries (registry demo_world))" by code_simp
  have m2: "\<not> list_all (matched unmatched_world) (entries (registry unmatched_world))" by code_simp
  have m3: "\<not> list_all (matched unreached_world) (entries (registry unreached_world))" by code_simp
  have g3: "list_all (\<lambda>e. key e \<noteq> key_of GRAPH) (reached unreached_world)" by code_simp
  have c1: "\<exists>w'. setWidgets (?b, demo_world) =
              Inr (?b\<lparr>WidgetBuilder.state := BuilderState.COMPLETE\<rparr>, w') \<and> evolves demo_world w'"
    using build_loop_outcome[of ?b demo_world] h r1 m1 by (simp only: if_True simp_thms) blast
  have c2: "\<exists>w'. setWidgets (?b, unmatched_world) =
              Inr (?b\<lparr>WidgetBuilder.state := BuilderState.ERROR_BUILDING\<rparr>, w')
            \<and> evolves unmatched_world w'"
    using build_loop_outcome[of ?b unmatched_world] h r2 m2 by (simp only: if_False simp_thms) blast
  have c3: "setWidgets (?b, unreached_world) =
              Inr (?b\<lparr>WidgetBuilder.state := BuilderState.ERROR_BUILDING\<rparr>, unreached_world)"
    using build_loop_outcome[of ?b unreached_world] h r3 m3 g3
    by (simp only: if_False simp_thms) blast
  show ?thesis
    using h r1 r2 r3 m1 m2 m3 g3 c1 c2 c3 unfolding b by simp
qed

text \<open>
  Claim C3 (terminal error states), as amended. No operation of either machine tests for
  an error state, so an error state is left by the calls that set the state whatever it
  was: \<^verbatim>\<open>setServices\<close> of both machines sets \<^verbatim>\<open>SERVICES_SET\<close> when registry and
  pool are both non-null and \<^verbatim>\<open>ERROR_SERVICES\<close> otherwise, and
  \<^verbatim>\<open>Screen::drawWidgets\<close>, where it completes, sets \<^verbatim>\<open>COMPLETE\<close>. What remains of the
  claim: a machine in \<^verbatim>\<open>ERROR_SERVICES\<close> stays there under \<^verbatim>\<open>setServices\<close> with a
  null registry or pool, and \<^verbatim>\<open>WidgetBuilder::setWidgets\<close> never leaves the error
  states: it keeps \<^verbatim>\<open>ERROR_BUILDING\<close> and turns \<^verbatim>\<open>ERROR_SERVICES\<close> into
  \<^verbatim>\<open>ERROR_BUILDING\<close>, touching nothing else.
  The claim as stated fails: after \<^verbatim>\<open>setServices\<close> with a null pool, a second
  \<^verbatim>\<open>setServices\<close> with both services takes the \<^verbatim>\<open>Screen\<close> from
  \<^verbatim>\<open>ERROR_SERVICES\<close> to \<^verbatim>\<open>SERVICES_SET\<close>.
\<close>

theorem error_states_under_operations:
  "Screen.state (Screen_setServices s r p) =
      (if r \<noteq> nullptr \<and> p \<noteq> nullptr then ScreenState.SERVICES_SET else ScreenState.ERROR_SERVICES)
   \<and> WidgetBuilder.state (setServices b r p) =
      (if r \<noteq> nullptr \<and> p \<noteq> nullptr then BuilderState.SERVICES_SET else BuilderState.ERROR_SERVICES)
   \<and> (WidgetBuilder.state b = BuilderState.ERROR_BUILDING \<longrightarrow> setWidgets (b, w) = Inr (b, w))
   \<and> (WidgetBuilder.state b = BuilderState.ERROR_SERVICES \<longrightarrow>
        setWidgets (b, w) = Inr (b\<lparr>WidgetBuilder.state := BuilderState.ERROR_BUILDING\<rparr>, w))
   \<and> (drawWidgets s0 w = Inr s1 \<longrightarrow> s1 = s0\<lparr>Screen.state := ScreenState.COMPLETE\<rparr>)"
proof (intro conjI impI)
  show "s1 = s0\<lparr>Screen.state := ScreenState.COMPLETE\<rparr>" if "drawWidgets s0 w = Inr s1"
    using that by (auto simp: drawWidgets_def split: if_splits)
  show "Screen.state (Screen_setServices s r p) =
      (if r \<noteq> nullptr \<and> p \<noteq> nullptr then ScreenState.SERVICES_SET else ScreenState.ERROR_SERVICES)"
    by (simp add: Screen_setServices_def Let_def)
  show "WidgetBuilder.state (setServices b r p) =
      (if r \<noteq> nullptr \<and> p \<noteq> nullptr then BuilderState.SERVICES_SET else BuilderState.ERROR_SERVICES)"
    by (simp add: setServices_def Let_def)
  show "setWidgets (b, w) = Inr (b, w)" if "WidgetBuilder.state b = BuilderState.ERROR_BUILDING"
    using that by (subst setWidgets.simps) simp
  show "setWidgets (b, w) = Inr (b\<lparr>WidgetBuilder.state := BuilderState.ERROR_BUILDING\<rparr>, w)"
    if "WidgetBuilder.state b = BuilderState.ERROR_SERVICES"
    using that by (subst setWidgets.simps) simp
qed

theorem error_states_under_operations_counterexample:
  "Screen.state (Screen_setServices new_Screen singleton nullptr) = ScreenState.ERROR_SERVICES
   \<and> Screen.state (Screen_setServices (Screen_setServices new_Screen singleton nullptr) singleton singleton)
       = ScreenState.SERVICES_SET
   \<and> Screen.state (Screen_setServices new_Screen nullptr singleton) = ScreenState.ERROR_SERVICES
   \<and> drawWidgets (Screen_setServices new_Screen nullptr singleton) demo_world
       = Inr \<lparr>Screen.state = ScreenState.COMPLETE, widgetRegistry = nullptr, widgetPool = singleton\<rparr>
   \<and> WidgetBuilder.state (setServices new_WidgetBuilder singleton nullptr) = BuilderState.ERROR_SERVICES
   \<and> setWidgets (setServices new_WidgetBuilder singleton nullptr, demo_world)
       = Inr (\<lparr>WidgetBuilder.state = BuilderState.ERROR_BUILDING,
               widgetRegistry = singleton, widgetPool = nullptr\<rparr>, demo_world)"
proof -
  have d: "drawWidgets (Screen_setServices new_Screen nullptr singleton) demo_world
       = Inr \<lparr>Screen.state = ScreenState.COMPLETE, widgetRegistry = nullptr, widgetPool = singleton\<rparr>"
    by code_simp
  have b: "setServices new_WidgetBuilder singleton nullptr
      = \<lparr>WidgetBuilder.state = BuilderState.ERROR_SERVICES, widgetRegistry = singleton, widgetPool = nullptr\<rparr>"
    by (simp add: setServices_def new_WidgetBuilder_def)
  have w: "setWidgets (setServices new_WidgetBuilder singleton nullptr, demo_world)
       = Inr (\<lparr>WidgetBuilder.state = BuilderState.ERROR_BUILDING,
               widgetRegistry = singleton, widgetPool = nullptr\<rparr>, demo_world)"
    unfolding b by (subst setWidgets.simps) simp
  show ?thesis
    using d w by (simp add: Screen_setServices_def new_Screen_def b)
qed

theorem error_states_under_operations_witness:
  "Screen.state (Screen_setServices (Screen_setServices new_Screen singleton nullptr) nullptr singleton)
       = ScreenState.ERROR_SERVICES
   \<and> WidgetBuilder.state (setServices (setServices new_WidgetBuilder singleton nullptr) nullptr singleton)
       = BuilderState.ERROR_SERVICES
   \<and> WidgetBuilder.state (setServices new_WidgetBuilder singleton nullptr) = BuilderState.ERROR_SERVICES
   \<and> setWidgets (setServices new_WidgetBuilder singleton nullptr, demo_world)
       = Inr ((setServices new_WidgetBuilder singleton nullptr)
                \<lparr>WidgetBuilder.state := BuilderState.ERROR_BUILDING\<rparr>, demo_world)
   \<and> WidgetBuilder.state ((setServices new_WidgetBuilder singleton nullptr)
                \<lparr>WidgetBuilder.state := BuilderState.ERROR_BUILDING\<rparr>) = BuilderState.ERROR_BUILDING
   \<and> setWidgets ((setServices new_WidgetBuilder singleton nullptr)
                \<lparr>WidgetBuilder.state := BuilderState.ERROR_BUILDING\<rparr>, demo_world)
       = Inr ((setServices new_WidgetBuilder singleton nullptr)
                \<lparr>WidgetBuilder.state := BuilderState.ERROR_BUILDING\<rparr>, demo_world)
   \<and> drawWidgets (Screen_setServices new_Screen singleton singleton) demo_world
       = Inr \<lparr>Screen.state = ScreenState.COMPLETE, widgetRegistry = singleton, widgetPool = singleton\<rparr>"
proof -
  have d: "drawWidgets (Screen_setServices new_Screen singleton singleton) demo_world
       = Inr \<lparr>Screen.state = ScreenState.COMPLETE, widgetRegistry = singleton, widgetPool = singleton\<rparr>"
    by code_simp
  show ?thesis
    using d
        error_states_under_operations[of "Screen_setServices new_Screen singleton nullptr" nullptr singleton
          "setServices new_WidgetBuilder singleton nullptr" demo_world
          "Screen_setServices new_Screen singleton singleton"
          "\<lparr>Screen.state = ScreenState.COMPLETE, widgetRegistry = singleton, widgetPool = singleton\<rparr>"]
        error_states_under_operations[of new_Screen singleton nullptr new_WidgetBuilder demo_world]
        error_states_under_operations[of new_Screen singleton nullptr
          "(setServices new_WidgetBuilder singleton nullptr)\<lparr>WidgetBuilder.state := BuilderState.ERROR_BUILDING\<rparr>"
          demo_world]
    by simp
qed

section \<open>Properties of the scaling functions\<close>


























section \<open>Properties of the geometry stage\<close>






subsection \<open>Claim about the geometry stage\<close>




end
